theory Spec2Isabelle
  imports Main "HOL-Library.Word"
begin

unbundle bit_operations_syntax

section \<open>wordgen: the word generator of \<^verbatim>\<open>wordgen.go\<close>\<close>

text \<open>
  Modelling decisions.
  \<^item> A Go \<^verbatim>\<open>string\<close> or \<^verbatim>\<open>[]byte\<close> is a \<open>string\<close> (a list of 8-bit characters).
  \<^item> \<^verbatim>\<open>BufferSize\<close> and the argument and result of \<^verbatim>\<open>roundToNearestPowerOfTwo\<close> are
    \<open>64 word\<close>: the function works on bits and its shift can overflow.
  \<^item> \<^verbatim>\<open>MinLen\<close>, \<^verbatim>\<open>MaxLen\<close>, \<^verbatim>\<open>stateLen\<close>, the digits of \<^verbatim>\<open>state\<close>, the cursors
    \<^verbatim>\<open>bufR\<close>, \<^verbatim>\<open>bufW\<close> and the counter \<^verbatim>\<open>generated\<close> are \<open>nat\<close>. Every slice of the
    engine is allocated with length or capacity \<^verbatim>\<open>MaxLen\<close> before any \<^verbatim>\<open>int(...)\<close>
    conversion is reached, and a \<^verbatim>\<open>MaxLen\<close> that does not fit \<^verbatim>\<open>int\<close> panics there, so the
    conversions keep the value; a digit never exceeds the
    charset length; the 64-bit cursors would wrap only after \<open>2 ^ 64\<close> writes, which is
    outside this model.
  \<^item> A \<^verbatim>\<open>make\<close> whose size is beyond the limit of the Go runtime panics, and the panic
    is an outcome of the constructor (\<open>makeslice_panics\<close> below). Within the limit the
    allocation succeeds: exhaustion of the memory of the machine is a fatal error of the
    runtime that depends on the machine, outside this model.
  \<^item> A run-time panic (index out of range) is a result of its own, never an unspecified
    value.
  \<^item> The mutex makes every critical section atomic: a method is a function from the
    engine state to a result and the new state; \<^verbatim>\<open>genCond.Wait()\<close> ends one atomic
    section and its wake-up starts another.
\<close>

subsection \<open>Configuration and engine state\<close>

definition defaultCharset :: string where
  "defaultCharset = ''abcdefghijklmnopqrstuvwxyzABCDEFGHIJKLMNOPQRSTUVWXYZ0123456789''"

definition defaultMinLen :: nat where
  "defaultMinLen = 8"

definition defaultMaxLen :: nat where
  "defaultMaxLen = 10"

definition minBufferSize :: "64 word" where
  "minBufferSize = 1"

record Config =
  Charset :: string
  InitialState :: string
  MinLen :: nat
  MaxLen :: nat
  BufferSize :: "64 word"

text \<open>Go's \<^verbatim>\<open>time.Time\<close>: \<open>None\<close> is the zero value (\<^verbatim>\<open>IsZero\<close>), \<open>Some t\<close> a clock reading.\<close>

type_synonym time = "nat option"

record WordGen =
  config :: Config
  charset :: string
  charsetLen :: nat
  startTime :: time
  endTime :: time
  generated :: nat
  bufSize :: "64 word"
  bufMask :: "64 word"
  buf :: "string list"
  bufR :: nat
  bufW :: nat
  state :: "nat list"
  initialState :: "nat list"
  stateLen :: nat
  running :: bool

datatype error =
    ErrMinGreaterThanMax
  | ErrCharsetEmpty
  | ErrDuplicateChar nat
  | ErrInitialStateShort
  | ErrInitialStateLong
  | ErrInitialStateChar char nat
  | ErrAlreadyRunning
  | EOF
  | PanicMakeslice

text \<open>
  \<open>PanicMakeslice\<close> is not a returned \<^verbatim>\<open>error\<close>: it is the run-time panic of
  \<^verbatim>\<open>runtime.makeslice\<close> (\<^verbatim>\<open>makeslice: len out of range\<close>, \<^verbatim>\<open>makeslice: cap out of range\<close>), after
  which the call does not return. The runtime panics when the requested length or
  capacity does not fit \<^verbatim>\<open>int\<close>, or when the element size times the capacity overflows or
  exceeds \<^verbatim>\<open>maxAlloc\<close>, which is \<open>2 ^ 48\<close> bytes on the 64-bit platforms (\<^verbatim>\<open>heapAddrBits = 48\<close>);
  with the product taken in \<open>nat\<close> the last condition covers the others. The element sizes
  are those of a 64-bit platform: 8 bytes for \<^verbatim>\<open>uint\<close>, 24 for the slice header \<^verbatim>\<open>[]byte\<close>,
  1 for \<^verbatim>\<open>byte\<close>.
\<close>

definition maxAlloc :: nat where
  "maxAlloc = 2 ^ 48"

definition makeslice_panics :: "nat \<Rightarrow> nat \<Rightarrow> bool" where
  "makeslice_panics elemsize n \<longleftrightarrow> maxAlloc < elemsize * n"

subsection \<open>\<^verbatim>\<open>roundToNearestPowerOfTwo\<close>\<close>

text \<open>
  \<^verbatim>\<open>math/bits.Len64\<close> of the Go library: the number of bits needed to represent its
  argument, 0 for 0.
\<close>

fun bit_length :: "nat \<Rightarrow> nat" where
  "bit_length n = (if n = 0 then 0 else Suc (bit_length (n div 2)))"

declare bit_length.simps [simp del]

definition Len64 :: "64 word \<Rightarrow> nat" where
  "Len64 x = bit_length (unat x)"

text \<open>
  A Go shift by 64 or more of a \<^verbatim>\<open>uint64\<close> gives 0, as \<open>push_bit\<close> on \<open>64 word\<close> does.
\<close>

definition roundToNearestPowerOfTwo :: "64 word \<Rightarrow> 64 word" where
  "roundToNearestPowerOfTwo n =
     (if n = 0 then 1
      else if n AND (n - 1) = 0 then n
      else
        let next = push_bit (Len64 n) (1 :: 64 word);
            prev = drop_bit 1 next
        in if n - prev < next - n then prev else next)"

subsection \<open>\<^verbatim>\<open>NewWordGen\<close>\<close>

text \<open>
  The loop over the charset with the map \<^verbatim>\<open>charsetSeen\<close>: the index of the first symbol
  seen before, if there is one.
\<close>

fun charsetSeen_loop :: "(char \<Rightarrow> bool) \<Rightarrow> nat \<Rightarrow> string \<Rightarrow> nat option" where
  "charsetSeen_loop seen i [] = None"
| "charsetSeen_loop seen i (c # cs) =
     (if seen c then Some i else charsetSeen_loop (seen(c := True)) (Suc i) cs)"

text \<open>\<^verbatim>\<open>bytes.IndexByte\<close> of the Go library: the first index of the byte, or -1.\<close>

fun IndexByte :: "string \<Rightarrow> char \<Rightarrow> int" where
  "IndexByte [] c = - 1"
| "IndexByte (b # bs) c =
     (if b = c then 0 else (let n = IndexByte bs c in if n < 0 then - 1 else n + 1))"

text \<open>
  The loop that decodes \<^verbatim>\<open>config.InitialState\<close> into \<^verbatim>\<open>pg.initialState\<close>. It runs only
  after the length checks, so the index \<open>i\<close> is inside the slice of length \<^verbatim>\<open>MaxLen\<close>.
\<close>

fun initialState_loop :: "string \<Rightarrow> nat \<Rightarrow> string \<Rightarrow> nat list \<Rightarrow> error + nat list" where
  "initialState_loop cs i [] ist = Inr ist"
| "initialState_loop cs i (c # rest) ist =
     (let n = IndexByte cs c
      in if n < 0 then Inl (ErrInitialStateChar c i)
         else initialState_loop cs (Suc i) rest (ist[i := nat n]))"

definition applyDefaults :: "Config \<Rightarrow> Config" where
  "applyDefaults config0 =
     (let config1 = (if MinLen config0 = 0 then config0\<lparr>MinLen := defaultMinLen\<rparr> else config0);
          config2 = (if MaxLen config1 = 0 then config1\<lparr>MaxLen := defaultMaxLen\<rparr> else config1)
      in if Charset config2 = [] then config2\<lparr>Charset := defaultCharset\<rparr> else config2)"

definition clampBuffer :: "Config \<Rightarrow> Config" where
  "clampBuffer c =
     (if BufferSize c < minBufferSize then c\<lparr>BufferSize := minBufferSize\<rparr> else c)"

text \<open>
  The end of \<^verbatim>\<open>NewWordGen\<close>: the capacity, the mask, \<^verbatim>\<open>make([][]byte, pg.bufSize)\<close> and, for
  every slot, \<^verbatim>\<open>make([]byte, 0, config.MaxLen)\<close>. Both allocations can panic; the second
  one is reached only when there is a slot.
\<close>

definition allocBuffer :: "WordGen \<Rightarrow> error + WordGen" where
  "allocBuffer pg =
     (let size = roundToNearestPowerOfTwo (BufferSize (config pg))
      in if makeslice_panics 24 (unat size) then Inl PanicMakeslice
         else if 0 < unat size \<and> makeslice_panics 1 (MaxLen (config pg)) then Inl PanicMakeslice
         else Inr (pg\<lparr>bufSize := size, bufMask := size - 1, buf := replicate (unat size) []\<rparr>))"

text \<open>
  \<^verbatim>\<open>NewWordGen\<close>. The struct literal evaluates \<^verbatim>\<open>make([]uint, 0, config.MaxLen)\<close> and
  \<^verbatim>\<open>make([]uint, config.MaxLen)\<close> after the comparison of \<^verbatim>\<open>MinLen\<close> with \<^verbatim>\<open>MaxLen\<close> and before
  every check of the charset and of the initial state: a \<^verbatim>\<open>MaxLen\<close> beyond the limit panics
  there.
\<close>

definition NewWordGen :: "Config \<Rightarrow> error + WordGen" where
  "NewWordGen config0 =
     (let config1 = applyDefaults config0
      in if MinLen config1 > MaxLen config1 then Inl ErrMinGreaterThanMax
         else
           let cfg = clampBuffer config1
           in if makeslice_panics 8 (MaxLen cfg) then Inl PanicMakeslice
              else
                let pg = \<lparr>config = cfg, charset = Charset cfg, charsetLen = length (Charset cfg),
                          startTime = None, endTime = None, generated = 0,
                          bufSize = 0, bufMask = 0, buf = [], bufR = 0, bufW = 0,
                          state = [], initialState = replicate (MaxLen cfg) 0,
                          stateLen = 0, running = False\<rparr>
                in if charsetLen pg = 0 then Inl ErrCharsetEmpty
                   else
                     case charsetSeen_loop (\<lambda>_. False) 0 (charset pg) of
                       Some i \<Rightarrow> Inl (ErrDuplicateChar i)
                     | None \<Rightarrow>
                         if length (InitialState cfg) > 0 then
                           if length (InitialState cfg) < MinLen cfg then Inl ErrInitialStateShort
                           else if length (InitialState cfg) > MaxLen cfg then Inl ErrInitialStateLong
                           else
                             case initialState_loop (charset pg) 0 (InitialState cfg) (initialState pg) of
                               Inl e \<Rightarrow> Inl e
                             | Inr ist \<Rightarrow>
                                 allocBuffer
                                   (pg\<lparr>initialState := take (length (InitialState cfg)) ist\<rparr>)
                         else
                           allocBuffer
                             (pg\<lparr>initialState := take (MinLen cfg) (initialState pg)\<rparr>))"

subsection \<open>\<^verbatim>\<open>Run\<close>, \<^verbatim>\<open>Stop\<close>, \<^verbatim>\<open>Stats\<close>\<close>

text \<open>
  \<^verbatim>\<open>Run\<close> up to the release of the mutex; \<open>now\<close> is the reading of \<^verbatim>\<open>time.Now()\<close>. The two
  goroutines it starts are the actions \<open>Stop\<close> (the context is done), \<open>runGenerator_iter\<close>
  and \<open>generator_exit\<close> below. The counter is allocated with
  \<^verbatim>\<open>make([]uint, len(pg.initialState), pg.config.MaxLen)\<close>: in every state of an engine that
  \<^verbatim>\<open>NewWordGen\<close> returned the capacity is within the allocation limit and the length is at
  most the capacity (lemma \<open>Run_make_within_limit\<close>), so this \<^verbatim>\<open>make\<close> does not panic.
\<close>

definition Run :: "nat \<Rightarrow> WordGen \<Rightarrow> error + WordGen" where
  "Run now pg =
     (if running pg then Inl ErrAlreadyRunning
      else Inr (pg\<lparr>startTime := Some now, endTime := None,
                    state := initialState pg, stateLen := length (initialState pg),
                    bufR := 0, bufW := 0, running := True\<rparr>))"

definition Stop :: "WordGen \<Rightarrow> WordGen" where
  "Stop pg = pg\<lparr>running := False\<rparr>"

text \<open>The end of the generator goroutine, after \<^verbatim>\<open>runGenerator\<close> has returned.\<close>

definition generator_exit :: "nat \<Rightarrow> WordGen \<Rightarrow> WordGen" where
  "generator_exit now pg = pg\<lparr>endTime := Some now, running := False\<rparr>"

definition Stats :: "nat \<Rightarrow> WordGen \<Rightarrow> nat \<times> int" where
  "Stats now pg =
     (case startTime pg of
        None \<Rightarrow> (0, 0)
      | Some st \<Rightarrow>
          (case endTime pg of
             None \<Rightarrow> (generated pg, int now - int st)
           | Some en \<Rightarrow> (generated pg, int en - int st)))"

subsection \<open>The counter: \<^verbatim>\<open>nextState\<close>\<close>

text \<open>
  The result of a method that can panic: \<open>Ret r pg\<close> is a return with value \<open>r\<close> and the
  engine state it leaves, \<open>Panic\<close> a run-time panic.
\<close>

datatype 'r outcome = Ret 'r WordGen | Panic

text \<open>
  The loop of \<^verbatim>\<open>nextState\<close> from index \<open>i\<close>. The returned error is \<open>None\<close> for \<^verbatim>\<open>nil\<close> and
  \<open>Some EOF\<close> for \<^verbatim>\<open>io.EOF\<close>; the state is returned in both cases, since the loop has
  changed it before it returns \<^verbatim>\<open>io.EOF\<close>.
\<close>

function nextState_loop :: "nat \<Rightarrow> WordGen \<Rightarrow> (error option) outcome" where
  "nextState_loop i pg =
     (if i \<ge> stateLen pg then
        (let pg1 = pg\<lparr>stateLen := stateLen pg + 1\<rparr>
         in if stateLen pg1 > MaxLen (config pg1) then Ret (Some EOF) pg1
            else Ret None (pg1\<lparr>state := state pg1 @ [0]\<rparr>))
      else if i \<ge> length (state pg) then Panic
      else
        (let pg1 = pg\<lparr>state := (state pg)[i := state pg ! i + 1]\<rparr>
         in if state pg1 ! i < charsetLen pg1 then Ret None pg1
            else nextState_loop (Suc i) (pg1\<lparr>state := (state pg1)[i := 0]\<rparr>)))"
  by pat_completeness auto
termination
  by (relation "measure (\<lambda>(i, pg). stateLen pg - i)") auto

declare nextState_loop.simps [simp del]

definition nextState :: "WordGen \<Rightarrow> (error option) outcome" where
  "nextState pg = nextState_loop 0 pg"

subsection \<open>The producer: one iteration of the loop of \<^verbatim>\<open>runGenerator\<close>\<close>

text \<open>
  The loop that fills the slot, from index \<open>i\<close>: \<^verbatim>\<open>(*buf)[i] = pg.charset[pg.state[i]]\<close>.
  Both index expressions can panic.
\<close>

function fill_loop :: "WordGen \<Rightarrow> nat \<Rightarrow> string \<Rightarrow> string option" where
  "fill_loop pg i b =
     (if i < stateLen pg then
        (if i < length (state pg) \<and> state pg ! i < length (charset pg)
         then fill_loop pg (Suc i) (b[i := charset pg ! (state pg ! i)])
         else None)
      else Some b)"
  by pat_completeness auto
termination
  by (relation "measure (\<lambda>(pg, i, b). stateLen pg - i)") auto

declare fill_loop.simps [simp del]

text \<open>
  \<^verbatim>\<open>*buf = (*buf)[:pg.stateLen]\<close> followed by the fill loop. A slot has capacity
  \<^verbatim>\<open>MaxLen\<close>; reslicing beyond it panics. The bytes a longer reslice uncovers are those
  of an earlier use of the slot; the loop overwrites every one of them, and the model
  starts from zero bytes.
\<close>

definition decode :: "WordGen \<Rightarrow> string option" where
  "decode pg =
     (if stateLen pg > MaxLen (config pg) then None
      else fill_loop pg 0 (replicate (stateLen pg) (CHR 0x00)))"

datatype gen_step = GenReturn "error option" | GenSleep | GenContinue

definition slot :: "WordGen \<Rightarrow> nat \<Rightarrow> nat" where
  "slot pg cursor = unat ((word_of_nat cursor :: 64 word) AND bufMask pg)"

definition occupancy :: "WordGen \<Rightarrow> 64 word" where
  "occupancy pg = word_of_nat (bufW pg) - word_of_nat (bufR pg)"

definition runGenerator_iter :: "WordGen \<Rightarrow> gen_step outcome" where
  "runGenerator_iter pg =
     (if \<not> running pg then Ret (GenReturn None) pg
      else if occupancy pg \<ge> bufSize pg then Ret GenSleep pg
      else
        let idx = slot pg (bufW pg)
        in if idx \<ge> length (buf pg) then Panic
           else
             case decode pg of
               None \<Rightarrow> Panic
             | Some w \<Rightarrow>
                 (case nextState (pg\<lparr>buf := (buf pg)[idx := w], bufW := bufW pg + 1,
                                      generated := generated pg + 1\<rparr>) of
                    Panic \<Rightarrow> Panic
                  | Ret (Some e) pg' \<Rightarrow> Ret (GenReturn (if e = EOF then None else Some e)) pg'
                  | Ret None pg' \<Rightarrow> Ret GenContinue pg'))"

subsection \<open>The consumers: \<^verbatim>\<open>Next\<close> and \<^verbatim>\<open>Batch\<close>\<close>

datatype next_result = Word string | NextErr error | NextWait

text \<open>The common tail of \<^verbatim>\<open>Next\<close>: read the slot at the read cursor and advance it.\<close>

definition pop :: "WordGen \<Rightarrow> next_result outcome" where
  "pop pg =
     (let idx = slot pg (bufR pg)
      in if idx \<ge> length (buf pg) then Panic
         else Ret (Word (buf pg ! idx)) (pg\<lparr>bufR := bufR pg + 1\<rparr>))"

text \<open>
  \<^verbatim>\<open>Next\<close> from the lock to its return or to \<^verbatim>\<open>genCond.Wait()\<close> (\<open>NextWait\<close>), and
  \<open>Next_wake\<close> from the wake-up to the return.
\<close>

definition Next :: "WordGen \<Rightarrow> next_result outcome" where
  "Next pg =
     (if bufR pg \<ge> bufW pg then
        (if \<not> running pg then Ret (NextErr EOF) pg else Ret NextWait pg)
      else pop pg)"

definition Next_wake :: "WordGen \<Rightarrow> next_result outcome" where
  "Next_wake pg = (if bufR pg \<ge> bufW pg then Ret (NextErr EOF) pg else pop pg)"

text \<open>
  \<^verbatim>\<open>Batch\<close>: \<open>BatchDone count words\<close> is a return, \<open>BatchWait i count words\<close> the call parked
  in \<^verbatim>\<open>genCond.Wait()\<close> at index \<open>i\<close>. \<open>woken\<close> says that the loop resumes just after the
  wake-up. The destination \<open>words\<close> receives a copy of each slot.
\<close>

datatype batch_result = BatchDone nat "string list" | BatchWait nat nat "string list"

function Batch_loop :: "bool \<Rightarrow> nat \<Rightarrow> nat \<Rightarrow> string list \<Rightarrow> WordGen \<Rightarrow> batch_result outcome" where
  "Batch_loop woken i count words pg =
     (if i < length words then
        (if bufR pg \<ge> bufW pg then
           (if woken then Ret (BatchDone count words) pg
            else if \<not> running pg then Ret (BatchDone count words) pg
            else Ret (BatchWait i count words) pg)
         else
           let idx = slot pg (bufR pg)
           in if idx \<ge> length (buf pg) then Panic
              else Batch_loop False (Suc i) (count + 1) (words[i := buf pg ! idx])
                     (pg\<lparr>bufR := bufR pg + 1\<rparr>))
      else Ret (BatchDone count words) pg)"
  by pat_completeness auto
termination
  by (relation "measure (\<lambda>(woken, i, count, words, pg). length words - i)") auto

declare Batch_loop.simps [simp del]

definition Batch :: "string list \<Rightarrow> WordGen \<Rightarrow> batch_result outcome" where
  "Batch words pg =
     (if length words = 0 then Ret (BatchDone 0 words) pg else Batch_loop False 0 0 words pg)"

definition Batch_wake :: "nat \<Rightarrow> nat \<Rightarrow> string list \<Rightarrow> WordGen \<Rightarrow> batch_result outcome" where
  "Batch_wake i count words pg = Batch_loop True i count words pg"

subsection \<open>Runs of the producer and of the engine\<close>

text \<open>
  The words that the loop of \<^verbatim>\<open>runGenerator\<close> writes, one per iteration that passes its two
  guards, from the counter state of \<open>pg\<close> on: the decoded state, then \<^verbatim>\<open>nextState\<close>, until
  it returns \<^verbatim>\<open>io.EOF\<close>. \<open>None\<close> is a panic or a loop without end.
\<close>

partial_function (option) produced :: "WordGen \<Rightarrow> string list option" where
  "produced pg =
     (case decode pg of
        None \<Rightarrow> None
      | Some w \<Rightarrow>
          (case nextState pg of
             Panic \<Rightarrow> None
           | Ret (Some e) pg' \<Rightarrow> Some [w]
           | Ret None pg' \<Rightarrow> Option.bind (produced pg') (\<lambda>ws. Some (w # ws))))"

declare produced.simps [code]

text \<open>
  A consumer that calls \<^verbatim>\<open>Next\<close> until it gets an error, as the tests do. A
  consumer parked in \<^verbatim>\<open>genCond.Wait()\<close> with no producer left is never woken: \<open>None\<close>.
\<close>

partial_function (option) drain :: "WordGen \<Rightarrow> string list \<Rightarrow> (string list \<times> WordGen) option" where
  "drain pg acc =
     (case Next pg of
        Panic \<Rightarrow> None
      | Ret (Word w) pg' \<Rightarrow> drain pg' (acc @ [w])
      | Ret (NextErr e) pg' \<Rightarrow> Some (acc, pg')
      | Ret NextWait pg' \<Rightarrow> None)"

declare drain.simps [code]

text \<open>
  One schedule of a started engine with a single consumer: the producer iterates as long
  as it can; when it finds the buffer full, the consumer takes one word; when
  \<^verbatim>\<open>runGenerator\<close> returns, its goroutine clears \<^verbatim>\<open>running\<close> and the consumer drains the
  buffer. The result is the list of words the consumer got before the error of
  \<^verbatim>\<open>Next\<close>, and the final state.
\<close>

partial_function (option) session :: "nat \<Rightarrow> WordGen \<Rightarrow> string list \<Rightarrow> (string list \<times> WordGen) option" where
  "session now pg acc =
     (case runGenerator_iter pg of
        Panic \<Rightarrow> None
      | Ret GenContinue pg1 \<Rightarrow> session now pg1 acc
      | Ret GenSleep pg1 \<Rightarrow>
          (case Next pg1 of
             Ret (Word w) pg2 \<Rightarrow> session now pg2 (acc @ [w])
           | _ \<Rightarrow> None)
      | Ret (GenReturn e) pg1 \<Rightarrow> drain (generator_exit now pg1) acc)"

declare session.simps [code]

text \<open>
  Any interleaving of the atomic sections of the engine: an event is one critical section
  of one goroutine. \<open>None\<close> is a crashed process.
\<close>

datatype event =
    EvRun nat
  | EvStop
  | EvGen
  | EvGenExit nat
  | EvNext
  | EvNextWake
  | EvBatch "string list"
  | EvBatchWake nat nat "string list"

fun after :: "'r outcome \<Rightarrow> WordGen option" where
  "after (Ret r pg) = Some pg"
| "after Panic = None"

fun step :: "event \<Rightarrow> WordGen \<Rightarrow> WordGen option" where
  "step (EvRun now) pg = (case Run now pg of Inl e \<Rightarrow> Some pg | Inr pg' \<Rightarrow> Some pg')"
| "step EvStop pg = Some (Stop pg)"
| "step EvGen pg = after (runGenerator_iter pg)"
| "step (EvGenExit now) pg = Some (generator_exit now pg)"
| "step EvNext pg = after (Next pg)"
| "step EvNextWake pg = after (Next_wake pg)"
| "step (EvBatch words) pg = after (Batch words pg)"
| "step (EvBatchWake i count words) pg = after (Batch_wake i count words pg)"

fun exec :: "event list \<Rightarrow> WordGen \<Rightarrow> WordGen option" where
  "exec [] pg = Some pg"
| "exec (ev # evs) pg = (case step ev pg of None \<Rightarrow> None | Some pg' \<Rightarrow> exec evs pg')"

fun is_run :: "event \<Rightarrow> bool" where
  "is_run (EvRun now) = True"
| "is_run ev = False"

subsection \<open>The enumeration order of the specification\<close>

text \<open>
  The \<open>L\<close> digits of \<open>n\<close> in base \<open>R\<close>, least significant first: digit 0 is the fastest
  one of the odometer.
\<close>

fun digits :: "nat \<Rightarrow> nat \<Rightarrow> nat \<Rightarrow> nat list" where
  "digits R 0 n = []"
| "digits R (Suc L) n = (n mod R) # digits R L (n div R)"

text \<open>All states of length \<open>L\<close> in odometer order, and all lengths from \<open>lo\<close> to \<open>hi\<close>.\<close>

definition odometer :: "nat \<Rightarrow> nat \<Rightarrow> nat list list" where
  "odometer R L = map (digits R L) [0..<R ^ L]"

definition enumeration :: "nat \<Rightarrow> nat \<Rightarrow> nat \<Rightarrow> nat list list" where
  "enumeration R lo hi = concat (map (odometer R) [lo..<Suc hi])"

definition word_of :: "string \<Rightarrow> nat list \<Rightarrow> string" where
  "word_of cs ds = map (\<lambda>d. cs ! d) ds"

subsection \<open>The increment of the specification\<close>

text \<open>
  The carry-propagating increment of a digit sequence in the words of the specification:
  increment digit 0; on overflow reset it to 0 and carry into the next digit. The flag
  says that the carry has left the last digit.
\<close>

fun increment :: "nat \<Rightarrow> nat list \<Rightarrow> bool \<times> nat list" where
  "increment R [] = (True, [])"
| "increment R (d # ds) =
     (if d + 1 < R then (False, (d + 1) # ds)
      else (let (carry, ds') = increment R ds in (carry, 0 # ds')))"

subsection \<open>Well-formed states\<close>

text \<open>
  The counter as \<^verbatim>\<open>Run\<close> sets it up and \<^verbatim>\<open>nextState\<close> keeps it until it returns \<^verbatim>\<open>io.EOF\<close>.
\<close>

definition counter_ok :: "WordGen \<Rightarrow> bool" where
  "counter_ok pg \<longleftrightarrow>
     stateLen pg = length (state pg) \<and> length (state pg) \<le> MaxLen (config pg) \<and>
     (\<forall>d \<in> set (state pg). d < charsetLen pg) \<and>
     charsetLen pg = length (charset pg) \<and> 0 < charsetLen pg"

text \<open>The buffer as \<^verbatim>\<open>NewWordGen\<close> allocates it, and the invariant of its cursors.\<close>

definition buffer_ok :: "WordGen \<Rightarrow> bool" where
  "buffer_ok pg \<longleftrightarrow>
     length (buf pg) = unat (bufSize pg) \<and> bufMask pg = bufSize pg - 1 \<and>
     bufSize pg AND (bufSize pg - 1) = 0"

definition cursors_ok :: "WordGen \<Rightarrow> bool" where
  "cursors_ok pg \<longleftrightarrow> bufR pg \<le> bufW pg \<and> bufW pg \<le> bufR pg + unat (bufSize pg)"

definition engine_ok :: "WordGen \<Rightarrow> bool" where
  "engine_ok pg \<longleftrightarrow> buffer_ok pg \<and> cursors_ok pg"

text \<open>The unread words of the buffer, oldest first.\<close>

definition pending :: "WordGen \<Rightarrow> string list" where
  "pending pg = map (\<lambda>c. buf pg ! slot pg c) [bufR pg..<bufW pg]"

text \<open>The number of words that the producer writes along a trace of events.\<close>

fun written :: "event list \<Rightarrow> WordGen \<Rightarrow> nat" where
  "written [] pg = 0"
| "written (ev # evs) pg =
     (case step ev pg of
        None \<Rightarrow> 0
      | Some pg' \<Rightarrow> (if ev = EvGen then bufW pg' - bufW pg else 0) + written evs pg')"

subsection \<open>Configurations and states of the tests\<close>

text \<open>
  The configuration \<open>Basic operation\<close> of the tests, the one with the initial state \<open>ba\<close>,
  and variants that \<^verbatim>\<open>NewWordGen\<close> treats in a special way.
\<close>

definition test_config :: Config where
  "test_config =
     \<lparr>Charset = ''abc'', InitialState = [], MinLen = 1, MaxLen = 2, BufferSize = 10\<rparr>"

definition test_config_initial :: Config where
  "test_config_initial = test_config\<lparr>InitialState := ''ba''\<rparr>"

definition duplicate_config :: Config where
  "duplicate_config = test_config\<lparr>Charset := ''abca''\<rparr>"


definition short_max_config :: Config where
  "short_max_config = test_config\<lparr>MinLen := 0, MaxLen := 5\<rparr>"





definition huge_max_config :: Config where
  "huge_max_config = duplicate_config\<lparr>MaxLen := 2 ^ 62\<rparr>"


text \<open>The engine that \<^verbatim>\<open>NewWordGen\<close> returns for \<open>test_config\<close>.\<close>

definition test_engine :: WordGen where
  "test_engine =
     \<lparr>config = test_config, charset = ''abc'', charsetLen = 3, startTime = None,
      endTime = None, generated = 0, bufSize = 8, bufMask = 7, buf = replicate 8 [],
      bufR = 0, bufW = 0, state = [], initialState = [0], stateLen = 0, running = False\<rparr>"

text \<open>The test engines after \<^verbatim>\<open>Run\<close> at clock reading 1.\<close>

definition test_started :: WordGen where
  "test_started =
     test_engine\<lparr>startTime := Some 1, state := [0], stateLen := 1, running := True\<rparr>"

definition test_started_initial :: WordGen where
  "test_started_initial =
     test_engine\<lparr>config := test_config_initial, startTime := Some 1, state := [1, 0],
       initialState := [1, 0], stateLen := 2, running := True\<rparr>"

text \<open>
  The counter of the test engine at its last state \<open>cc\<close>, and the counter that
  \<^verbatim>\<open>nextState\<close> leaves when it returns \<^verbatim>\<open>io.EOF\<close> there.
\<close>

definition last_counter :: WordGen where
  "last_counter = test_engine\<lparr>state := [2, 2], stateLen := 2\<rparr>"

definition exhausted_counter :: WordGen where
  "exhausted_counter = test_engine\<lparr>state := [0, 0], stateLen := 3\<rparr>"

text \<open>The test engine when the run is over and the buffer is drained.\<close>

definition test_finished :: WordGen where
  "test_finished =
     test_engine\<lparr>startTime := Some 1, endTime := Some 2, generated := 12,
       buf := [''cb'', ''ac'', ''bc'', ''cc'', ''ba'', ''ca'', ''ab'', ''bb''],
       bufR := 12, bufW := 12, state := [0, 0], stateLen := 3\<rparr>"

text \<open>
  A trace of the test engine: start, two words written, one read, stop, the producer
  sees the flag, its goroutine ends. Then the states it reaches, the state after one more
  \<^verbatim>\<open>Next\<close>, and the state after a second \<^verbatim>\<open>Run\<close> at clock reading 3.
\<close>

definition test_trace :: "event list" where
  "test_trace = [EvRun 1, EvGen, EvGen, EvNext, EvStop, EvGen, EvGenExit 2]"

definition test_stopped :: WordGen where
  "test_stopped =
     test_engine\<lparr>startTime := Some 1, endTime := Some 2, generated := 2,
       buf := [''a'', ''b'', [], [], [], [], [], []], bufR := 1, bufW := 2,
       state := [2], stateLen := 1\<rparr>"

definition test_emptied :: WordGen where
  "test_emptied = test_stopped\<lparr>bufR := 2\<rparr>"

definition test_restarted :: WordGen where
  "test_restarted =
     test_stopped\<lparr>startTime := Some 3, endTime := None, bufR := 0, bufW := 0,
       state := [0], running := True\<rparr>"

section \<open>Properties\<close>

subsection \<open>Rounding the buffer size\<close>

lemma bit_length_bounds:
  "0 < n \<Longrightarrow> 2 ^ (bit_length n - 1) \<le> n \<and> n < 2 ^ bit_length n \<and> 0 < bit_length n"
proof (induction n rule: bit_length.induct)
  case (1 n)
  show ?case
  proof (cases "n div 2 = 0")
    case True
    with 1 have "n = 1" by (simp add: div_eq_0_iff) 
    then show ?thesis by (simp add: bit_length.simps)
  next
    case False
    with 1 have IH: "(2::nat) ^ (bit_length (n div 2) - 1) \<le> n div 2"
         "n div 2 < 2 ^ bit_length (n div 2)" "0 < bit_length (n div 2)"
      by auto
    have bl: "bit_length n = Suc (bit_length (n div 2))"
      using 1(2) by (simp add: bit_length.simps)
    have "(2::nat) ^ (bit_length n - 1) = 2 * 2 ^ (bit_length (n div 2) - 1)"
      using IH(3) bl by (cases "bit_length (n div 2)") auto
    moreover have "(2::nat) ^ bit_length n = 2 * 2 ^ bit_length (n div 2)"
      using bl by simp
    ultimately show ?thesis using IH bl by linarith
  qed
qed

lemma and_pred_zero_pow2_nat: "0 < (m::nat) \<Longrightarrow> m AND (m - 1) = 0 \<Longrightarrow> \<exists>k. m = 2 ^ k"
proof (induction m rule: less_induct)
  case (less m)
  show ?case
  proof (cases "even m")
    case True
    then obtain a where a: "m = 2 * a" by (auto elim: evenE)
    with less.prems have apos: "0 < a" by simp
    have m1: "m - 1 = 2 * (a - 1) + 1" using a apos by simp
    have "m AND (m - 1) = 2 * (a AND (a - 1))"
      unfolding m1 unfolding a by (subst and_nat_rec) simp
    with less.prems have "a AND (a - 1) = 0" by simp
    moreover have "a < m" using a apos by simp
    ultimately obtain k where "a = 2 ^ k" using less.IH apos by blast
    then have "m = 2 ^ Suc k" using a by simp
    then show ?thesis by blast
  next
    case False
    then obtain a where a: "m = 2 * a + 1" by (auto elim: oddE)
    then have "m AND (m - 1) = 2 * a" by (subst and_nat_rec) simp
    with less.prems have "a = 0" by simp
    then have "m = 2 ^ 0" using a by simp
    then show ?thesis by blast
  qed
qed

lemma unat_two_power: "k < 64 \<Longrightarrow> unat (2 ^ k :: 64 word) = 2 ^ k"
proof -
  assume k: "k < 64"
  have len: "LENGTH(64) = 64" by simp
  have "(2 ^ k :: 64 word) = word_of_nat (2 ^ k)" by simp
  then have "unat (2 ^ k :: 64 word) = 2 ^ k mod 2 ^ LENGTH(64)"
    by (simp only: unat_of_nat)
  moreover have "(2::nat) ^ k < 2 ^ LENGTH(64)"
    unfolding len using k by (intro power_strict_increasing) simp_all
  ultimately show ?thesis by (simp only: mod_less)
qed

lemma and_pred_zero_pow2_word:
  fixes n :: "64 word"
  assumes "n \<noteq> 0" "n AND (n - 1) = 0"
  shows "\<exists>k<64. n = 2 ^ k"
proof -
  have pos: "0 < unat n" using assms(1) by (simp add: unat_gt_0)
  have "unat (n AND (n - 1)) = unat n AND (unat n - 1)"
    using assms(1) by (simp add: unsigned_and_eq unat_minus_one)
  with assms(2) have "unat n AND (unat n - 1) = 0" by simp
  then obtain k where k: "unat n = 2 ^ k" using and_pred_zero_pow2_nat pos by blast
  have "(2::nat) ^ k < 2 ^ 64" using unsigned_less [of n, where ?'a = nat] k by simp
  then have k64: "k < 64" by (simp only: power_strict_increasing_iff rel_simps)
  then have "unat n = unat (2 ^ k :: 64 word)" using k by (simp only: unat_two_power)
  then have "n = 2 ^ k" by (simp only: word_unat_eq_iff)
  with k64 show ?thesis by blast
qed

lemma exp_and_pred_zero: "(2 ^ k :: 64 word) AND (2 ^ k - 1) = 0"
proof -
  have "(2 ^ k :: 64 word) AND mask k = 0"
    by (rule bit_eqI) (auto simp: bit_and_iff bit_exp_iff bit_mask_iff)
  then show ?thesis by (simp only: mask_eq_exp_minus_1)
qed


lemma roundToNearestPowerOfTwo_nearest:
  fixes n :: "64 word"
  assumes n1: "1 \<le> unat n" and n63: "unat n \<le> 2 ^ 63"
  shows "(\<exists>k<64. roundToNearestPowerOfTwo n = 2 ^ k) \<and>
         3 * unat (roundToNearestPowerOfTwo n) \<le> 4 * unat n \<and>
         2 * unat n < 3 * unat (roundToNearestPowerOfTwo n)"
proof -
  have n0: "n \<noteq> 0" using n1 by (auto simp: unat_gt_0 [symmetric])
  show ?thesis
  proof (cases "n AND (n - 1) = 0")
    case True
    then have r: "roundToNearestPowerOfTwo n = n" using n0 by (simp add: roundToNearestPowerOfTwo_def)
    show ?thesis unfolding r using and_pred_zero_pow2_word [OF n0 True] n1 by simp
  next
    case False
    define m where "m = unat n"
    define L where "L = bit_length m"
    have mpos: "0 < m" using n1 by (simp add: m_def)
    have bl: "2 ^ (L - 1) \<le> m" "m < 2 ^ L" "0 < L"
      using bit_length_bounds [OF mpos] by (simp_all add: L_def)
    have "unat n \<noteq> 2 ^ 63"
    proof
      assume "unat n = 2 ^ 63"
      then have "unat n = unat (2 ^ 63 :: 64 word)" by (simp add: unat_two_power)
      then have "n = 2 ^ 63" by (simp only: word_unat_eq_iff)
      with False show False by simp
    qed
    with n63 have m63: "m < 2 ^ 63" by (simp add: m_def)
    have "(2::nat) ^ (L - 1) < 2 ^ 63" using bl(1) m63 by linarith
    then have "L - 1 < 63" by (simp only: power_strict_increasing_iff rel_simps)
    then have L64: "L < 64" "L - 1 < 64" by simp_all
    have nx: "push_bit (Len64 n) (1 :: 64 word) = 2 ^ L"
      by (simp add: Len64_def L_def m_def)
    have pv: "drop_bit 1 (2 ^ L :: 64 word) = 2 ^ (L - 1)"
      using bl(3) by (simp add: drop_bit_exp_eq L64 Suc_leI)
    have unx: "unat (2 ^ L :: 64 word) = 2 ^ L" using L64 by (simp add: unat_two_power)
    have upv: "unat (2 ^ (L - 1) :: 64 word) = 2 ^ (L - 1)" using L64 by (simp add: unat_two_power)
    have le1: "(2 ^ (L - 1) :: 64 word) \<le> n" using bl(1) unfolding word_le_nat_alt upv m_def .
    have le2: "n \<le> (2 ^ L :: 64 word)" using bl(2) unfolding word_le_nat_alt unx m_def by simp
    have d1: "unat (n - 2 ^ (L - 1)) = m - 2 ^ (L - 1)"
      unfolding unat_sub [OF le1] upv m_def ..
    have d2: "unat (2 ^ L - n) = 2 ^ L - m"
      unfolding unat_sub [OF le2] unx m_def ..
    have two: "(2::nat) ^ L = 2 * 2 ^ (L - 1)" using bl(3) by (cases L) auto
    have r: "roundToNearestPowerOfTwo n =
        (if m - 2 ^ (L - 1) < 2 ^ L - m then 2 ^ (L - 1) else 2 ^ L)"
      unfolding roundToNearestPowerOfTwo_def Let_def nx pv word_less_nat_alt d1 d2
      using n0 False by simp
    show ?thesis
    proof (cases "m - 2 ^ (L - 1) < 2 ^ L - m")
      case True
      then have r': "roundToNearestPowerOfTwo n = 2 ^ (L - 1)" using r by simp
      have "3 * (2::nat) ^ (L - 1) \<le> 4 * m" "2 * m < 3 * 2 ^ (L - 1)"
        using True bl two by linarith+
      then show ?thesis unfolding r' upv using L64 by (auto simp: m_def)
    next
      case F: False
      then have r': "roundToNearestPowerOfTwo n = 2 ^ L" using r by simp
      have "3 * (2::nat) ^ L \<le> 4 * m" "2 * m < 3 * 2 ^ L"
        using F bl two by linarith+
      then show ?thesis unfolding r' unx using L64 by (auto simp: m_def)
    qed
  qed
qed

subsection \<open>Construction\<close>

lemma charsetSeen_loop_None:
  "charsetSeen_loop seen i cs = None \<longleftrightarrow> distinct cs \<and> (\<forall>c \<in> set cs. \<not> seen c)"
  by (induction cs arbitrary: seen i) auto

lemma charsetSeen_loop_Some:
  "charsetSeen_loop seen i cs = Some j \<Longrightarrow>
     i \<le> j \<and> j - i < length cs \<and> (seen (cs ! (j - i)) \<or> cs ! (j - i) \<in> set (take (j - i) cs)) \<and>
     distinct (take (j - i) cs) \<and> (\<forall>c \<in> set (take (j - i) cs). \<not> seen c)"
proof (induction cs arbitrary: seen i)
  case Nil
  then show ?case by simp
next
  case (Cons c cs)
  show ?case
  proof (cases "seen c")
    case True
    with Cons.prems show ?thesis by simp
  next
    case False
    with Cons.prems have "charsetSeen_loop (seen(c := True)) (Suc i) cs = Some j" by simp
    from Cons.IH [OF this] have IH: "Suc i \<le> j" "j - Suc i < length cs"
        "(seen(c := True)) (cs ! (j - Suc i)) \<or> cs ! (j - Suc i) \<in> set (take (j - Suc i) cs)"
        "distinct (take (j - Suc i) cs)" "\<forall>x \<in> set (take (j - Suc i) cs). \<not> (seen(c := True)) x"
      by auto
    have eq: "j - i = Suc (j - Suc i)" using IH(1) by simp
    show ?thesis unfolding eq using IH False by (auto split: if_splits)
  qed
qed

lemma IndexByte_neg: "IndexByte cs c < 0 \<longleftrightarrow> c \<notin> set cs"
  by (induction cs) (auto simp: Let_def)

lemma IndexByte_ge: "- 1 \<le> IndexByte cs c"
  by (induction cs) (auto simp: Let_def)

lemma IndexByte_nth:
  "c \<in> set cs \<Longrightarrow> nat (IndexByte cs c) < length cs \<and> cs ! nat (IndexByte cs c) = c"
proof (induction cs)
  case Nil
  then show ?case by simp
next
  case (Cons b bs)
  show ?case
  proof (cases "b = c")
    case True
    then show ?thesis by simp
  next
    case False
    with Cons.prems have m: "c \<in> set bs" by simp
    then have nn: "\<not> IndexByte bs c < 0" by (simp add: IndexByte_neg)
    then have "nat (IndexByte bs c + 1) = Suc (nat (IndexByte bs c))" by simp
    with Cons.IH [OF m] False nn show ?thesis by (simp add: Let_def)
  qed
qed

lemma initialState_loop_Inl:
  "(\<exists>e. initialState_loop cs i w ist = Inl e) \<longleftrightarrow> \<not> set w \<subseteq> set cs"
  by (induction w arbitrary: i ist) (auto simp: Let_def IndexByte_neg)

lemma initialState_loop_Inr:
  "set w \<subseteq> set cs \<Longrightarrow> i + length w \<le> length ist \<Longrightarrow>
     \<exists>ist'. initialState_loop cs i w ist = Inr ist' \<and> length ist' = length ist \<and>
       take i ist' = take i ist \<and> drop (i + length w) ist' = drop (i + length w) ist \<and>
       (\<forall>k < length w. ist' ! (i + k) < length cs \<and> cs ! (ist' ! (i + k)) = w ! k)"
proof (induction w arbitrary: i ist)
  case Nil
  then show ?case by simp
next
  case (Cons c w)
  let ?n = "nat (IndexByte cs c)"
  have c: "c \<in> set cs" and w: "set w \<subseteq> set cs" using Cons.prems by auto
  have nn: "\<not> IndexByte cs c < 0" using c by (simp add: IndexByte_neg)
  have len: "Suc i + length w \<le> length (ist[i := ?n])" using Cons.prems by simp
  from Cons.IH [OF w len] obtain ist' where
    r: "initialState_loop cs (Suc i) w (ist[i := ?n]) = Inr ist'" and
    l: "length ist' = length ist" and
    t: "take (Suc i) ist' = take (Suc i) (ist[i := ?n])" and
    d: "drop (Suc i + length w) ist' = drop (Suc i + length w) (ist[i := ?n])" and
    k: "\<forall>k < length w. ist' ! (Suc i + k) < length cs \<and> cs ! (ist' ! (Suc i + k)) = w ! k"
    by auto
  have ilt: "i < length ist" using Cons.prems by simp
  have "ist' ! i = take (Suc i) ist' ! i" by simp
  also have "\<dots> = ?n" unfolding t using ilt by simp
  finally have i0: "ist' ! i = ?n" .
  have t': "take i ist' = take i ist"
  proof -
    have "take i ist' = take i (take (Suc i) ist')" by (simp add: min_def)
    also have "\<dots> = take i (take (Suc i) (ist[i := ?n]))" unfolding t ..
    also have "\<dots> = take i ist" by (simp add: min_def)
    finally show ?thesis .
  qed
  have d': "drop (i + length (c # w)) ist' = drop (i + length (c # w)) ist"
    using d by simp
  have k': "\<forall>k < length (c # w). ist' ! (i + k) < length cs \<and> cs ! (ist' ! (i + k)) = (c # w) ! k"
  proof (intro allI impI)
    fix k assume "k < length (c # w)"
    then show "ist' ! (i + k) < length cs \<and> cs ! (ist' ! (i + k)) = (c # w) ! k"
      using i0 IndexByte_nth [OF c] k by (cases k) auto
  qed
  show ?case using r l t' d' k' nn by (simp add: Let_def)
qed

lemma applyDefaults_fields:
  "InitialState (applyDefaults cfg) = InitialState cfg"
  "BufferSize (applyDefaults cfg) = BufferSize cfg"
  "Charset (applyDefaults cfg) \<noteq> []"
  "0 < MinLen (applyDefaults cfg)"
  "0 < MaxLen (applyDefaults cfg)"
  by (simp_all add: applyDefaults_def Let_def defaultCharset_def defaultMinLen_def defaultMaxLen_def)


lemma initialState_decoded:
  assumes "set w \<subseteq> set cs" "length w \<le> n"
  shows "\<exists>ist. initialState_loop cs 0 w (replicate n 0) = Inr ist \<and>
           length (take (length w) ist) = length w \<and>
           word_of cs (take (length w) ist) = w \<and>
           (\<forall>d \<in> set (take (length w) ist). d < length cs)"
proof -
  from initialState_loop_Inr [of w cs 0 "replicate n 0"] assms obtain ist where
    r: "initialState_loop cs 0 w (replicate n 0) = Inr ist" and
    l: "length ist = n" and
    k: "\<forall>k < length w. ist ! k < length cs \<and> cs ! (ist ! k) = w ! k"
    by auto
  have l': "length (take (length w) ist) = length w" using l assms(2) by simp
  have "word_of cs (take (length w) ist) = w"
    by (rule nth_equalityI) (use l' k in \<open>auto simp: word_of_def\<close>)
  moreover have "\<forall>d \<in> set (take (length w) ist). d < length cs"
    using k l' by (auto simp: in_set_conv_nth)
  ultimately show ?thesis using r l' by blast
qed

lemma clampBuffer_fields:
  "Charset (clampBuffer c) = Charset c" "InitialState (clampBuffer c) = InitialState c"
  "MinLen (clampBuffer c) = MinLen c" "MaxLen (clampBuffer c) = MaxLen c"
  "BufferSize (clampBuffer c) = (if BufferSize c = 0 then 1 else BufferSize c)"
  by (auto simp: clampBuffer_def minBufferSize_def word_less_1)

lemma makeslice_panics_byte:
  "\<not> makeslice_panics 8 n \<Longrightarrow> \<not> makeslice_panics 1 n"
  by (simp add: makeslice_panics_def)

lemma initialState_loop_first_error:
  "\<not> set w \<subseteq> set cs \<Longrightarrow>
     \<exists>k<length w. initialState_loop cs i w ist = Inl (ErrInitialStateChar (w ! k) (i + k)) \<and>
        w ! k \<notin> set cs \<and> set (take k w) \<subseteq> set cs"
proof (induction w arbitrary: i ist)
  case Nil
  then show ?case by simp
next
  case (Cons c w)
  show ?case
  proof (cases "c \<in> set cs")
    case False
    then have "IndexByte cs c < 0" by (simp add: IndexByte_neg)
    then show ?thesis using False by (intro exI [of _ 0]) (simp add: Let_def)
  next
    case True
    then have nn: "\<not> IndexByte cs c < 0" by (simp add: IndexByte_neg)
    from Cons.prems True have "\<not> set w \<subseteq> set cs" by simp
    from Cons.IH [OF this, of "Suc i" "ist[i := nat (IndexByte cs c)]"] obtain k where
      k: "k < length w"
        "initialState_loop cs (Suc i) w (ist[i := nat (IndexByte cs c)]) =
           Inl (ErrInitialStateChar (w ! k) (Suc i + k))"
        "w ! k \<notin> set cs" "set (take k w) \<subseteq> set cs"
      by blast
    show ?thesis using k nn True by (intro exI [of _ "Suc k"]) (simp add: Let_def)
  qed
qed

text \<open>
  The branches of \<^verbatim>\<open>NewWordGen\<close>, one lemma for each, in the order of the code. The
  configuration \<open>applyDefaults cfg\<close> is the one the checks read.
\<close>

lemma NewWordGen_min_gt_max:
  "MaxLen (applyDefaults cfg) < MinLen (applyDefaults cfg) \<Longrightarrow>
     NewWordGen cfg = Inl ErrMinGreaterThanMax"
  by (simp add: NewWordGen_def Let_def)

lemma NewWordGen_panic_state:
  "MinLen (applyDefaults cfg) \<le> MaxLen (applyDefaults cfg) \<Longrightarrow>
   makeslice_panics 8 (MaxLen (applyDefaults cfg)) \<Longrightarrow>
     NewWordGen cfg = Inl PanicMakeslice"
  by (simp add: NewWordGen_def Let_def clampBuffer_fields)

lemma NewWordGen_duplicate:
  assumes "MinLen (applyDefaults cfg) \<le> MaxLen (applyDefaults cfg)"
    "\<not> makeslice_panics 8 (MaxLen (applyDefaults cfg))"
    "\<not> distinct (Charset (applyDefaults cfg))"
  shows "\<exists>i<length (Charset (applyDefaults cfg)).
           NewWordGen cfg = Inl (ErrDuplicateChar i) \<and>
           Charset (applyDefaults cfg) ! i \<in> set (take i (Charset (applyDefaults cfg))) \<and>
           distinct (take i (Charset (applyDefaults cfg)))"
proof -
  define c where "c = applyDefaults cfg"
  have f: "Charset c \<noteq> []" by (simp add: c_def applyDefaults_fields)
  from assms(3) obtain i where s: "charsetSeen_loop (\<lambda>_. False) 0 (Charset c) = Some i"
    using charsetSeen_loop_None [of "\<lambda>_. False" 0 "Charset c"] by (auto simp: c_def)
  have "NewWordGen cfg = Inl (ErrDuplicateChar i)"
    using assms(1,2) f s by (simp add: NewWordGen_def Let_def clampBuffer_fields flip: c_def)
  moreover from charsetSeen_loop_Some [OF s]
  have "i < length (Charset c)" "Charset c ! i \<in> set (take i (Charset c))"
    "distinct (take i (Charset c))"
    by simp_all
  ultimately show ?thesis unfolding c_def by blast
qed

lemma NewWordGen_short:
  assumes "MinLen (applyDefaults cfg) \<le> MaxLen (applyDefaults cfg)"
    "\<not> makeslice_panics 8 (MaxLen (applyDefaults cfg))"
    "distinct (Charset (applyDefaults cfg))"
    "InitialState cfg \<noteq> []" "length (InitialState cfg) < MinLen (applyDefaults cfg)"
  shows "NewWordGen cfg = Inl ErrInitialStateShort"
proof -
  define c where "c = applyDefaults cfg"
  have f: "InitialState c = InitialState cfg" "Charset c \<noteq> []"
    by (simp_all add: c_def applyDefaults_fields)
  have s: "charsetSeen_loop (\<lambda>_. False) 0 (Charset c) = None"
    using assms(3) by (simp add: charsetSeen_loop_None c_def)
  show ?thesis
    using assms(1,2,4,5) f s by (simp add: NewWordGen_def Let_def clampBuffer_fields flip: c_def)
qed

lemma NewWordGen_long:
  assumes "MinLen (applyDefaults cfg) \<le> MaxLen (applyDefaults cfg)"
    "\<not> makeslice_panics 8 (MaxLen (applyDefaults cfg))"
    "distinct (Charset (applyDefaults cfg))"
    "MaxLen (applyDefaults cfg) < length (InitialState cfg)"
  shows "NewWordGen cfg = Inl ErrInitialStateLong"
proof -
  define c where "c = applyDefaults cfg"
  have f: "InitialState c = InitialState cfg" "Charset c \<noteq> []"
    by (simp_all add: c_def applyDefaults_fields)
  have s: "charsetSeen_loop (\<lambda>_. False) 0 (Charset c) = None"
    using assms(3) by (simp add: charsetSeen_loop_None c_def)
  have "InitialState cfg \<noteq> []" "\<not> length (InitialState cfg) < MinLen (applyDefaults cfg)"
    using assms(1,4) by auto
  then show ?thesis
    using assms(1,2,4) f s by (simp add: NewWordGen_def Let_def clampBuffer_fields flip: c_def)
qed

lemma NewWordGen_absent:
  assumes "MinLen (applyDefaults cfg) \<le> MaxLen (applyDefaults cfg)"
    "\<not> makeslice_panics 8 (MaxLen (applyDefaults cfg))"
    "distinct (Charset (applyDefaults cfg))"
    "MinLen (applyDefaults cfg) \<le> length (InitialState cfg)"
    "length (InitialState cfg) \<le> MaxLen (applyDefaults cfg)"
    "\<not> set (InitialState cfg) \<subseteq> set (Charset (applyDefaults cfg))"
  shows "\<exists>k<length (InitialState cfg).
           NewWordGen cfg = Inl (ErrInitialStateChar (InitialState cfg ! k) k) \<and>
           InitialState cfg ! k \<notin> set (Charset (applyDefaults cfg)) \<and>
           set (take k (InitialState cfg)) \<subseteq> set (Charset (applyDefaults cfg))"
proof -
  define c where "c = applyDefaults cfg"
  have f: "InitialState c = InitialState cfg" "Charset c \<noteq> []"
    by (simp_all add: c_def applyDefaults_fields)
  have s: "charsetSeen_loop (\<lambda>_. False) 0 (Charset c) = None"
    using assms(3) by (simp add: charsetSeen_loop_None c_def)
  have ne: "InitialState cfg \<noteq> []" using assms(6) by auto
  from initialState_loop_first_error [OF assms(6), of 0 "replicate (MaxLen c) 0"]
  obtain k where k: "k < length (InitialState cfg)"
      "initialState_loop (Charset c) 0 (InitialState cfg) (replicate (MaxLen c) 0) =
         Inl (ErrInitialStateChar (InitialState cfg ! k) k)"
      "InitialState cfg ! k \<notin> set (Charset c)" "set (take k (InitialState cfg)) \<subseteq> set (Charset c)"
    by (auto simp: c_def)
  have "NewWordGen cfg = Inl (ErrInitialStateChar (InitialState cfg ! k) k)"
    using assms(1,2,4,5) f s ne k(2)
    by (simp add: NewWordGen_def Let_def clampBuffer_fields flip: c_def)
  then show ?thesis using k(1,3,4) unfolding c_def by blast
qed

text \<open>
  When every check has passed, the result is that of the allocation of the buffer, on the
  engine that holds the decoded initial state.
\<close>

lemma NewWordGen_validated:
  assumes "MinLen (applyDefaults cfg) \<le> MaxLen (applyDefaults cfg)"
    "\<not> makeslice_panics 8 (MaxLen (applyDefaults cfg))"
    "distinct (Charset (applyDefaults cfg))"
    "InitialState cfg = [] \<or>
       (MinLen (applyDefaults cfg) \<le> length (InitialState cfg) \<and>
        length (InitialState cfg) \<le> MaxLen (applyDefaults cfg) \<and>
        set (InitialState cfg) \<subseteq> set (Charset (applyDefaults cfg)))"
  defines "c \<equiv> applyDefaults cfg"
  shows "\<exists>ist. NewWordGen cfg = allocBuffer \<lparr>config = clampBuffer c, charset = Charset c,
           charsetLen = length (Charset c), startTime = None, endTime = None, generated = 0,
           bufSize = 0, bufMask = 0, buf = [], bufR = 0, bufW = 0, state = [],
           initialState = ist, stateLen = 0, running = False\<rparr> \<and>
         (InitialState cfg = [] \<longrightarrow> ist = replicate (MinLen c) 0) \<and>
         (InitialState cfg \<noteq> [] \<longrightarrow> length ist = length (InitialState cfg) \<and>
            word_of (Charset c) ist = InitialState cfg \<and> (\<forall>d \<in> set ist. d < length (Charset c)))"
proof -
  have f: "InitialState c = InitialState cfg" "Charset c \<noteq> []"
    by (simp_all add: c_def applyDefaults_fields)
  have mm: "\<not> MaxLen c < MinLen c" and np: "\<not> makeslice_panics 8 (MaxLen c)"
    using assms(1,2) by (simp_all add: c_def)
  have cs: "charsetSeen_loop (\<lambda>_. False) 0 (Charset c) = None"
    using assms(3) by (simp add: charsetSeen_loop_None c_def)
  show ?thesis
  proof (cases "InitialState cfg = []")
    case True
    then show ?thesis using mm np f cs
      by (simp add: NewWordGen_def Let_def clampBuffer_fields flip: c_def)
  next
    case ne: False
    with assms(4) have len: "\<not> length (InitialState cfg) < MinLen c"
        "\<not> MaxLen c < length (InitialState cfg)" and sub: "set (InitialState cfg) \<subseteq> set (Charset c)"
      by (auto simp: c_def)
    from initialState_decoded [OF sub, of "MaxLen c"] len obtain ist where
      r: "initialState_loop (Charset c) 0 (InitialState cfg) (replicate (MaxLen c) 0) = Inr ist" and
      p: "length (take (length (InitialState cfg)) ist) = length (InitialState cfg)"
         "word_of (Charset c) (take (length (InitialState cfg)) ist) = InitialState cfg"
         "\<forall>d \<in> set (take (length (InitialState cfg)) ist). d < length (Charset c)"
      by auto
    have "NewWordGen cfg = allocBuffer \<lparr>config = clampBuffer c, charset = Charset c,
           charsetLen = length (Charset c), startTime = None, endTime = None, generated = 0,
           bufSize = 0, bufMask = 0, buf = [], bufR = 0, bufW = 0, state = [],
           initialState = take (length (InitialState cfg)) ist, stateLen = 0, running = False\<rparr>"
      using mm np f cs ne len r
      by (simp add: NewWordGen_def Let_def clampBuffer_fields flip: c_def)
    then show ?thesis using p ne by (intro exI [of _ "take (length (InitialState cfg)) ist"]) simp
  qed
qed

lemma allocBuffer_Inl:
  "allocBuffer pg = Inl e \<longleftrightarrow>
     e = PanicMakeslice \<and>
     (makeslice_panics 24 (unat (roundToNearestPowerOfTwo (BufferSize (config pg)))) \<or>
      (0 < unat (roundToNearestPowerOfTwo (BufferSize (config pg))) \<and>
       makeslice_panics 1 (MaxLen (config pg))))"
  by (auto simp: allocBuffer_def Let_def)

lemma allocBuffer_Inr:
  "allocBuffer pg = Inr g \<longleftrightarrow>
     \<not> makeslice_panics 24 (unat (roundToNearestPowerOfTwo (BufferSize (config pg)))) \<and>
     \<not> (0 < unat (roundToNearestPowerOfTwo (BufferSize (config pg))) \<and>
        makeslice_panics 1 (MaxLen (config pg))) \<and>
     g = pg\<lparr>bufSize := roundToNearestPowerOfTwo (BufferSize (config pg)),
            bufMask := roundToNearestPowerOfTwo (BufferSize (config pg)) - 1,
            buf := replicate (unat (roundToNearestPowerOfTwo (BufferSize (config pg)))) []\<rparr>"
  by (auto simp: allocBuffer_def Let_def)

lemma NewWordGen_panic_buffer:
  assumes "MinLen (applyDefaults cfg) \<le> MaxLen (applyDefaults cfg)"
    "\<not> makeslice_panics 8 (MaxLen (applyDefaults cfg))"
    "distinct (Charset (applyDefaults cfg))"
    "InitialState cfg = [] \<or>
       (MinLen (applyDefaults cfg) \<le> length (InitialState cfg) \<and>
        length (InitialState cfg) \<le> MaxLen (applyDefaults cfg) \<and>
        set (InitialState cfg) \<subseteq> set (Charset (applyDefaults cfg)))"
    "makeslice_panics 24
       (unat (roundToNearestPowerOfTwo (if BufferSize cfg = 0 then 1 else BufferSize cfg)))"
  shows "NewWordGen cfg = Inl PanicMakeslice"
proof -
  from NewWordGen_validated [OF assms(1-4)] obtain pg where
    n: "NewWordGen cfg = allocBuffer pg" and c: "config pg = clampBuffer (applyDefaults cfg)"
    by fastforce
  have b: "BufferSize (clampBuffer (applyDefaults cfg)) =
      (if BufferSize cfg = 0 then 1 else BufferSize cfg)"
    by (simp add: clampBuffer_fields applyDefaults_fields)
  have "allocBuffer pg = Inl PanicMakeslice"
    unfolding allocBuffer_Inl c b using assms(5) by blast
  then show ?thesis using n by simp
qed

lemma NewWordGen_constructs:
  assumes "MinLen (applyDefaults cfg) \<le> MaxLen (applyDefaults cfg)"
    "\<not> makeslice_panics 8 (MaxLen (applyDefaults cfg))"
    "distinct (Charset (applyDefaults cfg))"
    "InitialState cfg = [] \<or>
       (MinLen (applyDefaults cfg) \<le> length (InitialState cfg) \<and>
        length (InitialState cfg) \<le> MaxLen (applyDefaults cfg) \<and>
        set (InitialState cfg) \<subseteq> set (Charset (applyDefaults cfg)))"
    "\<not> makeslice_panics 24
       (unat (roundToNearestPowerOfTwo (if BufferSize cfg = 0 then 1 else BufferSize cfg)))"
  shows "\<exists>g. NewWordGen cfg = Inr g"
proof -
  from NewWordGen_validated [OF assms(1-4)] obtain pg where
    n: "NewWordGen cfg = allocBuffer pg" and c: "config pg = clampBuffer (applyDefaults cfg)"
    by fastforce
  have b: "BufferSize (clampBuffer (applyDefaults cfg)) =
      (if BufferSize cfg = 0 then 1 else BufferSize cfg)"
    "MaxLen (clampBuffer (applyDefaults cfg)) = MaxLen (applyDefaults cfg)"
    by (simp_all add: clampBuffer_fields applyDefaults_fields)
  have "\<nexists>e. allocBuffer pg = Inl e"
    unfolding allocBuffer_Inl c b using assms(5) makeslice_panics_byte [OF assms(2)]
    by blast
  then show ?thesis unfolding n by (cases "allocBuffer pg") auto
qed

text \<open>
  The branches are exhaustive and exclusive: the result of \<^verbatim>\<open>NewWordGen\<close> is an error
  exactly under the conditions of the checks, a panic exactly when an allocation is beyond
  the limit, and an engine otherwise.
\<close>

lemma NewWordGen_error_iff:
  "(\<exists>e. NewWordGen cfg = Inl e \<and> e \<noteq> PanicMakeslice) \<longleftrightarrow>
     MaxLen (applyDefaults cfg) < MinLen (applyDefaults cfg) \<or>
     (\<not> makeslice_panics 8 (MaxLen (applyDefaults cfg)) \<and>
      (\<not> distinct (Charset (applyDefaults cfg)) \<or>
       (InitialState cfg \<noteq> [] \<and>
         (length (InitialState cfg) < MinLen (applyDefaults cfg) \<or>
          MaxLen (applyDefaults cfg) < length (InitialState cfg) \<or>
          \<not> set (InitialState cfg) \<subseteq> set (Charset (applyDefaults cfg))))))"
proof (cases "MaxLen (applyDefaults cfg) < MinLen (applyDefaults cfg)")
  case True
  then show ?thesis using NewWordGen_min_gt_max [OF True] by simp
next
  case False
  then have mm: "MinLen (applyDefaults cfg) \<le> MaxLen (applyDefaults cfg)" by simp
  show ?thesis
  proof (cases "makeslice_panics 8 (MaxLen (applyDefaults cfg))")
    case True
    then show ?thesis using False NewWordGen_panic_state [OF mm True] by simp
  next
    case np: False
    show ?thesis
    proof (cases "distinct (Charset (applyDefaults cfg))")
      case False
      then show ?thesis using np NewWordGen_duplicate [OF mm np False] by auto
    next
      case d: True
      consider (short) "InitialState cfg \<noteq> []" "length (InitialState cfg) < MinLen (applyDefaults cfg)"
        | (long) "MaxLen (applyDefaults cfg) < length (InitialState cfg)"
        | (absent) "MinLen (applyDefaults cfg) \<le> length (InitialState cfg)"
            "length (InitialState cfg) \<le> MaxLen (applyDefaults cfg)"
            "\<not> set (InitialState cfg) \<subseteq> set (Charset (applyDefaults cfg))"
        | (valid) "InitialState cfg = [] \<or>
            (MinLen (applyDefaults cfg) \<le> length (InitialState cfg) \<and>
             length (InitialState cfg) \<le> MaxLen (applyDefaults cfg) \<and>
             set (InitialState cfg) \<subseteq> set (Charset (applyDefaults cfg)))"
        by atomize_elim (cases "InitialState cfg = []"; force)
      then show ?thesis
      proof cases
        case short
        then show ?thesis using np NewWordGen_short [OF mm np d short] by simp
      next
        case long
        then have "InitialState cfg \<noteq> []" by auto
        then show ?thesis using np long NewWordGen_long [OF mm np d long] by simp
      next
        case absent
        then have "InitialState cfg \<noteq> []" by auto
        then show ?thesis using np absent(3) NewWordGen_absent [OF mm np d absent] by auto
      next
        case valid
        from NewWordGen_validated [OF mm np d valid] obtain pg where
          n: "NewWordGen cfg = allocBuffer pg"
          by fastforce
        have "\<not> (\<exists>e. NewWordGen cfg = Inl e \<and> e \<noteq> PanicMakeslice)"
          unfolding n allocBuffer_Inl by simp
        then show ?thesis using False d valid by auto
      qed
    qed
  qed
qed

lemma NewWordGen_panic_iff:
  "NewWordGen cfg = Inl PanicMakeslice \<longleftrightarrow>
     MinLen (applyDefaults cfg) \<le> MaxLen (applyDefaults cfg) \<and>
     (makeslice_panics 8 (MaxLen (applyDefaults cfg)) \<or>
      (distinct (Charset (applyDefaults cfg)) \<and>
       (InitialState cfg = [] \<or>
         (MinLen (applyDefaults cfg) \<le> length (InitialState cfg) \<and>
          length (InitialState cfg) \<le> MaxLen (applyDefaults cfg) \<and>
          set (InitialState cfg) \<subseteq> set (Charset (applyDefaults cfg)))) \<and>
       makeslice_panics 24
         (unat (roundToNearestPowerOfTwo (if BufferSize cfg = 0 then 1 else BufferSize cfg)))))"
proof (cases "MaxLen (applyDefaults cfg) < MinLen (applyDefaults cfg)")
  case True
  then show ?thesis using NewWordGen_min_gt_max [OF True] by simp
next
  case False
  then have mm: "MinLen (applyDefaults cfg) \<le> MaxLen (applyDefaults cfg)" by simp
  show ?thesis
  proof (cases "makeslice_panics 8 (MaxLen (applyDefaults cfg))")
    case True
    then show ?thesis using mm NewWordGen_panic_state [OF mm True] by simp
  next
    case np: False
    have e: "\<not> (\<exists>e. NewWordGen cfg = Inl e \<and> e \<noteq> PanicMakeslice) \<Longrightarrow>
        distinct (Charset (applyDefaults cfg)) \<and>
        (InitialState cfg = [] \<or>
          (MinLen (applyDefaults cfg) \<le> length (InitialState cfg) \<and>
           length (InitialState cfg) \<le> MaxLen (applyDefaults cfg) \<and>
           set (InitialState cfg) \<subseteq> set (Charset (applyDefaults cfg))))"
      unfolding NewWordGen_error_iff using np by auto
    show ?thesis
    proof (cases "distinct (Charset (applyDefaults cfg)) \<and>
        (InitialState cfg = [] \<or>
          (MinLen (applyDefaults cfg) \<le> length (InitialState cfg) \<and>
           length (InitialState cfg) \<le> MaxLen (applyDefaults cfg) \<and>
           set (InitialState cfg) \<subseteq> set (Charset (applyDefaults cfg))))")
      case False
      with e obtain e' where "NewWordGen cfg = Inl e'" "e' \<noteq> PanicMakeslice" by blast
      then show ?thesis using False np by auto
    next
      case True
      then have d: "distinct (Charset (applyDefaults cfg))" and
        v: "InitialState cfg = [] \<or>
          (MinLen (applyDefaults cfg) \<le> length (InitialState cfg) \<and>
           length (InitialState cfg) \<le> MaxLen (applyDefaults cfg) \<and>
           set (InitialState cfg) \<subseteq> set (Charset (applyDefaults cfg)))"
        by blast+
      show ?thesis
      proof (cases "makeslice_panics 24
         (unat (roundToNearestPowerOfTwo (if BufferSize cfg = 0 then 1 else BufferSize cfg)))")
        case p: True
        show ?thesis using NewWordGen_panic_buffer [OF mm np d v p] mm d v p by simp
      next
        case p: False
        from NewWordGen_constructs [OF mm np d v p] show ?thesis using p np by auto
      qed
    qed
  qed
qed

lemma NewWordGen_fails:
  "(\<exists>e. NewWordGen cfg = Inl e) \<longleftrightarrow>
     MaxLen (applyDefaults cfg) < MinLen (applyDefaults cfg) \<or>
     makeslice_panics 8 (MaxLen (applyDefaults cfg)) \<or>
     \<not> distinct (Charset (applyDefaults cfg)) \<or>
     (InitialState cfg \<noteq> [] \<and>
       (length (InitialState cfg) < MinLen (applyDefaults cfg) \<or>
        MaxLen (applyDefaults cfg) < length (InitialState cfg) \<or>
        \<not> set (InitialState cfg) \<subseteq> set (Charset (applyDefaults cfg)))) \<or>
     makeslice_panics 24
       (unat (roundToNearestPowerOfTwo (if BufferSize cfg = 0 then 1 else BufferSize cfg)))"
proof -
  have "(\<exists>e. NewWordGen cfg = Inl e) \<longleftrightarrow>
      (\<exists>e. NewWordGen cfg = Inl e \<and> e \<noteq> PanicMakeslice) \<or> NewWordGen cfg = Inl PanicMakeslice"
    by blast
  then show ?thesis unfolding NewWordGen_error_iff NewWordGen_panic_iff
    by (cases "InitialState cfg = []") auto
qed

lemma NewWordGen_Inr:
  assumes "NewWordGen cfg = Inr g"
  defines "c \<equiv> applyDefaults cfg"
  shows "config g = clampBuffer c" "charset g = Charset c" "charsetLen g = length (Charset c)"
    "distinct (Charset c)" "MinLen c \<le> MaxLen c"
    "bufSize g = roundToNearestPowerOfTwo (if BufferSize cfg = 0 then 1 else BufferSize cfg)"
    "bufMask g = bufSize g - 1" "buf g = replicate (unat (bufSize g)) []"
    "bufR g = 0" "bufW g = 0" "generated g = 0" "\<not> running g"
    "startTime g = None" "endTime g = None"
    "InitialState cfg = [] \<Longrightarrow> initialState g = replicate (MinLen c) 0"
    "InitialState cfg \<noteq> [] \<Longrightarrow>
       length (initialState g) = length (InitialState cfg) \<and>
       word_of (Charset c) (initialState g) = InitialState cfg \<and>
       (\<forall>d \<in> set (initialState g). d < length (Charset c)) \<and>
       MinLen c \<le> length (InitialState cfg) \<and> length (InitialState cfg) \<le> MaxLen c"
    "\<not> makeslice_panics 8 (MaxLen c)" "\<not> makeslice_panics 24 (unat (bufSize g))"
proof -
  have f: "InitialState c = InitialState cfg" "Charset c \<noteq> []" "BufferSize c = BufferSize cfg"
    by (simp_all add: c_def applyDefaults_fields)
  have nf: "\<not> (\<exists>e. NewWordGen cfg = Inl e)" using assms(1) by simp
  note nf' = nf [unfolded NewWordGen_fails, folded c_def, simplified]
  have mm: "MinLen c \<le> MaxLen c" and d: "distinct (Charset c)"
    and np: "\<not> makeslice_panics 8 (MaxLen c)"
    and nb: "\<not> makeslice_panics 24
       (unat (roundToNearestPowerOfTwo (if BufferSize cfg = 0 then 1 else BufferSize cfg)))"
    and v: "InitialState cfg = [] \<or>
       (MinLen c \<le> length (InitialState cfg) \<and> length (InitialState cfg) \<le> MaxLen c \<and>
        set (InitialState cfg) \<subseteq> set (Charset c))"
    using nf' by auto
  show "distinct (Charset c)" by (fact d)
  show "MinLen c \<le> MaxLen c" by (fact mm)
  show "\<not> makeslice_panics 8 (MaxLen c)" by (fact np)
  from NewWordGen_validated [OF mm [unfolded c_def] np [unfolded c_def] d [unfolded c_def]
      v [unfolded c_def], folded c_def]
  obtain ist where n: "NewWordGen cfg = allocBuffer \<lparr>config = clampBuffer c, charset = Charset c,
           charsetLen = length (Charset c), startTime = None, endTime = None, generated = 0,
           bufSize = 0, bufMask = 0, buf = [], bufR = 0, bufW = 0, state = [],
           initialState = ist, stateLen = 0, running = False\<rparr>" and
    i1: "InitialState cfg = [] \<longrightarrow> ist = replicate (MinLen c) 0" and
    i2: "InitialState cfg \<noteq> [] \<longrightarrow> length ist = length (InitialState cfg) \<and>
            word_of (Charset c) ist = InitialState cfg \<and> (\<forall>d \<in> set ist. d < length (Charset c))"
    by blast
  from assms(1) [unfolded n allocBuffer_Inr]
  have g: "g = \<lparr>config = clampBuffer c, charset = Charset c,
           charsetLen = length (Charset c), startTime = None, endTime = None, generated = 0,
           bufSize = roundToNearestPowerOfTwo (BufferSize (clampBuffer c)),
           bufMask = roundToNearestPowerOfTwo (BufferSize (clampBuffer c)) - 1,
           buf = replicate (unat (roundToNearestPowerOfTwo (BufferSize (clampBuffer c)))) [],
           bufR = 0, bufW = 0, state = [],
           initialState = ist, stateLen = 0, running = False\<rparr>"
    by simp
  show "config g = clampBuffer c" "charset g = Charset c" "charsetLen g = length (Charset c)"
    "bufMask g = bufSize g - 1" "buf g = replicate (unat (bufSize g)) []"
    "bufR g = 0" "bufW g = 0" "generated g = 0" "\<not> running g"
    "startTime g = None" "endTime g = None"
    by (simp_all add: g)
  show bs: "bufSize g = roundToNearestPowerOfTwo (if BufferSize cfg = 0 then 1 else BufferSize cfg)"
    by (simp add: g clampBuffer_fields f)
  show "\<not> makeslice_panics 24 (unat (bufSize g))" unfolding bs by (fact nb)
  have ig: "initialState g = ist" by (simp add: g)
  show "InitialState cfg = [] \<Longrightarrow> initialState g = replicate (MinLen c) 0"
    using i1 ig by simp
  show "InitialState cfg \<noteq> [] \<Longrightarrow>
       length (initialState g) = length (InitialState cfg) \<and>
       word_of (Charset c) (initialState g) = InitialState cfg \<and>
       (\<forall>d \<in> set (initialState g). d < length (Charset c)) \<and>
       MinLen c \<le> length (InitialState cfg) \<and> length (InitialState cfg) \<le> MaxLen c"
    using i2 ig v by auto
qed

lemma roundToNearestPowerOfTwo_10: "roundToNearestPowerOfTwo 10 = 8"
  by code_simp

lemmas NewWordGen_eval =
  NewWordGen_def allocBuffer_def applyDefaults_def clampBuffer_def Let_def
  makeslice_panics_def maxAlloc_def minBufferSize_def defaultCharset_def
  roundToNearestPowerOfTwo_10

lemma NewWordGen_test_config: "NewWordGen test_config = Inr test_engine"
  by (simp add: NewWordGen_eval test_config_def test_engine_def)

lemma unat_BufferSize_test_config: "unat (BufferSize test_config) = 10"
  by (simp add: test_config_def)

text \<open>
  C10: a configuration with \<^verbatim>\<open>MinLen = 0\<close> and \<^verbatim>\<open>0 < MaxLen < 8\<close> is rejected with the
  min-greater-than-max error: the default 8 replaces the zero \<^verbatim>\<open>MinLen\<close> before the
  comparison with \<^verbatim>\<open>MaxLen\<close>.
\<close>

theorem min_default_rejects:
  "MinLen cfg = 0 \<Longrightarrow> 0 < MaxLen cfg \<Longrightarrow> MaxLen cfg < 8 \<Longrightarrow>
     NewWordGen cfg = Inl ErrMinGreaterThanMax"
  by (simp add: NewWordGen_def applyDefaults_def Let_def defaultMinLen_def)

theorem min_default_rejects_witness:
  "MinLen short_max_config = 0 \<and> 0 < MaxLen short_max_config \<and> MaxLen short_max_config < 8 \<and>
   NewWordGen short_max_config = Inl ErrMinGreaterThanMax"
  using min_default_rejects [of short_max_config]
  by (simp add: short_max_config_def test_config_def)

text \<open>
  C4, as amended: for a requested size \<open>n \<le> 2 ^ 63\<close>, the capacity chosen at construction is
  the power of two nearest to \<open>max 1 n\<close> (the upper one at equal distance): a power of
  two \<open>c \<ge> 1\<close> with \<open>3 * c \<le> 4 * max 1 n\<close> and \<open>2 * max 1 n < 3 * c\<close>. It is not always
  at least \<open>n\<close>: the request 10 of the tests gets 8 slots.
\<close>

theorem capacity_nearest_power_of_two:
  assumes "NewWordGen cfg = Inr g" and "unat (BufferSize cfg) \<le> 2 ^ 63"
  shows "(\<exists>k<64. bufSize g = 2 ^ k) \<and> 1 \<le> unat (bufSize g) \<and>
         length (buf g) = unat (bufSize g) \<and>
         3 * unat (bufSize g) \<le> 4 * max 1 (unat (BufferSize cfg)) \<and>
         2 * max 1 (unat (BufferSize cfg)) < 3 * unat (bufSize g)"
proof -
  define n :: "64 word" where "n = (if BufferSize cfg = 0 then 1 else BufferSize cfg)"
  have bs: "bufSize g = roundToNearestPowerOfTwo n"
    and bf: "buf g = replicate (unat (bufSize g)) []"
    using NewWordGen_Inr [OF assms(1)] by (simp_all add: n_def)
  have un: "unat n = max 1 (unat (BufferSize cfg))"
    by (cases "BufferSize cfg = 0") (auto simp: n_def max_def unat_gt_0 Suc_leI unat_eq_zero)
  have "1 \<le> unat n" "unat n \<le> 2 ^ 63" using assms(2) un by auto
  from roundToNearestPowerOfTwo_nearest [OF this]
  have r: "\<exists>k<64. bufSize g = 2 ^ k" "3 * unat (bufSize g) \<le> 4 * unat n"
      "2 * unat n < 3 * unat (bufSize g)"
    unfolding bs by auto
  have "1 \<le> unat (bufSize g)" using r(3) \<open>1 \<le> unat n\<close> by linarith
  moreover have "length (buf g) = unat (bufSize g)" by (subst bf) simp
  ultimately show ?thesis using r un by simp
qed

theorem capacity_nearest_power_of_two_witness:
  "NewWordGen test_config = Inr test_engine \<and> unat (BufferSize test_config) \<le> 2 ^ 63 \<and>
   (\<exists>k<64. bufSize test_engine = 2 ^ k) \<and> 1 \<le> unat (bufSize test_engine) \<and>
   length (buf test_engine) = unat (bufSize test_engine) \<and>
   3 * unat (bufSize test_engine) \<le> 4 * max 1 (unat (BufferSize test_config)) \<and>
   2 * max 1 (unat (BufferSize test_config)) < 3 * unat (bufSize test_engine)"
proof -
  have h: "unat (BufferSize test_config) \<le> 2 ^ 63"
    by (simp add: unat_BufferSize_test_config)
  show ?thesis
    using capacity_nearest_power_of_two [OF NewWordGen_test_config h] NewWordGen_test_config h
    by blast
qed

theorem capacity_below_request_counterexample:
  "NewWordGen test_config = Inr test_engine \<and> BufferSize test_config = 10 \<and>
   bufSize test_engine = 8 \<and> bufSize test_engine < BufferSize test_config"
  by (simp add: NewWordGen_test_config) (simp add: test_config_def test_engine_def)

subsection \<open>Failures of construction\<close>

lemma initialState_loop_error:
  "initialState_loop cs i w ist = Inl e \<Longrightarrow> \<exists>c k. e = ErrInitialStateChar c k"
  by (induction w arbitrary: i ist) (auto simp: Let_def split: if_splits)

lemma initialState_loop_no_duplicate_error:
  "initialState_loop cs i w ist = Inl (ErrDuplicateChar j) \<Longrightarrow> False"
  by (drule initialState_loop_error) simp

lemma initialState_loop_no_empty_error:
  "initialState_loop cs i w ist = Inl ErrCharsetEmpty \<Longrightarrow> False"
  by (drule initialState_loop_error) simp



text \<open>
  A charset with a duplicate and a \<^verbatim>\<open>MaxLen\<close> of \<open>2 ^ 62\<close>: the constructor panics in the
  allocation of the counter, before it reads the charset.
\<close>

lemma NewWordGen_huge_max_config: "NewWordGen huge_max_config = Inl PanicMakeslice"
  by (rule NewWordGen_panic_state)
    (simp_all add: huge_max_config_def duplicate_config_def test_config_def applyDefaults_def
      Let_def makeslice_panics_def maxAlloc_def)



subsection \<open>The counter\<close>

lemma increment_length: "length (snd (increment R ds)) = length ds"
  by (induction ds) (auto simp: Let_def split: prod.splits)

lemma increment_carry:
  "fst (increment R ds) \<longleftrightarrow> (\<forall>d \<in> set ds. \<not> d + 1 < R)"
  by (induction ds) (auto simp: Let_def split: prod.splits)

lemma increment_carry_zero:
  "fst (increment R ds) \<Longrightarrow> snd (increment R ds) = replicate (length ds) 0"
  by (induction ds) (auto simp: Let_def split: prod.splits if_splits)

lemma increment_bound:
  "\<forall>d \<in> set ds. d < R \<Longrightarrow> \<forall>d \<in> set (snd (increment R ds)). d < R"
  by (induction ds) (auto simp: Let_def split: prod.splits)

lemma nextState_loop_increment:
  assumes "stateLen pg = length (state pg)" "i \<le> length (state pg)"
  shows "nextState_loop i pg =
     (let r = increment (charsetLen pg) (drop i (state pg));
          st = take i (state pg) @ snd r
      in if fst r then
           (if stateLen pg + 1 > MaxLen (config pg)
            then Ret (Some EOF) (pg\<lparr>state := st, stateLen := stateLen pg + 1\<rparr>)
            else Ret None (pg\<lparr>state := st @ [0], stateLen := stateLen pg + 1\<rparr>))
         else Ret None (pg\<lparr>state := st\<rparr>))"
  using assms
proof (induction i pg rule: nextState_loop.induct)
  case (1 i pg)
  show ?case
  proof (cases "i \<ge> stateLen pg")
    case True
    with 1(2,3) have "i = length (state pg)" by simp
    then show ?thesis using 1(2)
      by (subst nextState_loop.simps) (simp add: Let_def)
  next
    case False
    with 1(2) have ilt: "i < length (state pg)" by simp
    have dr: "drop i (state pg) = state pg ! i # drop (Suc i) (state pg)"
      using ilt by (simp add: Cons_nth_drop_Suc)
    show ?thesis
    proof (cases "state pg ! i + 1 < charsetLen pg")
      case True
      have "take i (state pg) @ (state pg ! i + 1) # drop (Suc i) (state pg)
              = (state pg)[i := state pg ! i + 1]"
        using ilt by (simp add: upd_conv_take_nth_drop)
      then show ?thesis using True False ilt 1(2)
        by (subst nextState_loop.simps) (simp add: Let_def dr)
    next
      case nc: False
      let ?pg' = "pg\<lparr>state := (state pg)[i := 0]\<rparr>"
      define r where "r = increment (charsetLen pg) (drop (Suc i) (state pg))"
      define st where "st = take i (state pg) @ 0 # snd r"
      have t: "take (Suc i) ((state pg)[i := 0]) = take i (state pg) @ [0]"
        using ilt by (simp add: take_Suc_conv_app_nth)
      have IH: "nextState_loop (Suc i) ?pg' =
         (if fst r then
            (if stateLen pg + 1 > MaxLen (config pg)
             then Ret (Some EOF) (pg\<lparr>state := st, stateLen := stateLen pg + 1\<rparr>)
             else Ret None (pg\<lparr>state := st @ [0], stateLen := stateLen pg + 1\<rparr>))
          else Ret None (pg\<lparr>state := st\<rparr>))"
        using 1(1) [of "pg\<lparr>state := (state pg)[i := state pg ! i + 1]\<rparr>"] False ilt nc 1(2)
        by (simp add: Let_def t r_def st_def)
      have step: "nextState_loop i pg = nextState_loop (Suc i) ?pg'"
        using False ilt nc by (subst nextState_loop.simps) (simp add: Let_def)
      have inc: "increment (charsetLen pg) (drop i (state pg)) = (fst r, 0 # snd r)"
        using nc by (simp add: dr r_def split: prod.splits)
      show ?thesis unfolding step IH inc Let_def by (simp add: st_def)
    qed
  qed
qed

lemma nextState_increment:
  assumes "stateLen pg = length (state pg)"
  shows "nextState pg =
     (let r = increment (charsetLen pg) (state pg)
      in if fst r then
           (if stateLen pg + 1 > MaxLen (config pg)
            then Ret (Some EOF) (pg\<lparr>state := snd r, stateLen := stateLen pg + 1\<rparr>)
            else Ret None (pg\<lparr>state := snd r @ [0], stateLen := stateLen pg + 1\<rparr>))
         else Ret None (pg\<lparr>state := snd r\<rparr>))"
  unfolding nextState_def using nextState_loop_increment [OF assms, of 0] by (simp add: Let_def)

lemma fill_loop_map:
  assumes "stateLen pg = length (state pg)" "\<forall>d \<in> set (state pg). d < length (charset pg)"
    "length b = stateLen pg" "i \<le> stateLen pg"
  shows "fill_loop pg i b = Some (take i b @ map (\<lambda>d. charset pg ! d) (drop i (state pg)))"
  using assms
proof (induction pg i b rule: fill_loop.induct)
  case (1 pg i b)
  show ?case
  proof (cases "i < stateLen pg")
    case True
    then have ilt: "i < length (state pg)" using 1(2) by simp
    have d: "state pg ! i < length (charset pg)" using 1(3) ilt by simp
    have dr: "drop i (state pg) = state pg ! i # drop (Suc i) (state pg)"
      using ilt by (simp add: Cons_nth_drop_Suc)
    have "fill_loop pg i b = fill_loop pg (Suc i) (b[i := charset pg ! (state pg ! i)])"
      using True ilt d by (subst fill_loop.simps) simp
    also have "\<dots> = Some (take (Suc i) (b[i := charset pg ! (state pg ! i)]) @
        map (\<lambda>d. charset pg ! d) (drop (Suc i) (state pg)))"
      using 1(1) [OF True] ilt d 1(2,3,4) True by simp
    also have "take (Suc i) (b[i := charset pg ! (state pg ! i)])
          = take i b @ [charset pg ! (state pg ! i)]"
      using True 1(4) by (simp add: take_Suc_conv_app_nth)
    finally show ?thesis by (simp add: dr)
  next
    case False
    with 1(5) have "i = stateLen pg" by simp
    then show ?thesis using 1(2,4) by (subst fill_loop.simps) simp
  qed
qed

lemma decode_word_of:
  assumes "counter_ok pg"
  shows "decode pg = Some (word_of (charset pg) (state pg))"
proof -
  have a: "stateLen pg = length (state pg)" "\<forall>d \<in> set (state pg). d < length (charset pg)"
    "stateLen pg \<le> MaxLen (config pg)"
    using assms by (auto simp: counter_ok_def)
  show ?thesis
    using fill_loop_map [OF a(1,2), of "replicate (stateLen pg) (CHR 0x00)" 0] a(3)
    by (simp add: decode_def word_of_def)
qed

lemma counter_ok_last_counter: "counter_ok last_counter"
  by (simp add: counter_ok_def last_counter_def test_engine_def test_config_def)

text \<open>
  C5, as amended: from a well-formed counter state, \<^verbatim>\<open>nextState\<close> performs the
  carry-propagating increment of the specification, and it returns \<^verbatim>\<open>io.EOF\<close> exactly when
  the carry would push the length past \<^verbatim>\<open>MaxLen\<close>: the length is \<^verbatim>\<open>MaxLen\<close> and every digit
  is the last symbol. Every other call returns \<^verbatim>\<open>nil\<close> and a well-formed state. The call
  that returns \<^verbatim>\<open>io.EOF\<close> leaves all digits 0 and the length field at \<^verbatim>\<open>MaxLen + 1\<close>, which
  is not a well-formed state; nothing is said about a further call.
\<close>

theorem advance_exhausted_iff:
  assumes "counter_ok pg"
  shows "nextState pg =
           (let (carry, ds) = increment (charsetLen pg) (state pg)
            in if \<not> carry then Ret None (pg\<lparr>state := ds\<rparr>)
               else if stateLen pg = MaxLen (config pg)
                    then Ret (Some EOF) (pg\<lparr>state := ds, stateLen := stateLen pg + 1\<rparr>)
                    else Ret None (pg\<lparr>state := ds @ [0], stateLen := stateLen pg + 1\<rparr>)) \<and>
         ((\<exists>pg'. nextState pg = Ret (Some EOF) pg') \<longleftrightarrow>
            stateLen pg = MaxLen (config pg) \<and> (\<forall>d \<in> set (state pg). d + 1 = charsetLen pg)) \<and>
         (\<forall>pg'. nextState pg = Ret None pg' \<longrightarrow> counter_ok pg') \<and>
         (\<forall>pg'. nextState pg = Ret (Some EOF) pg' \<longrightarrow>
            state pg' = replicate (MaxLen (config pg)) 0 \<and>
            stateLen pg' = MaxLen (config pg) + 1)"
proof -
  define r where "r = increment (charsetLen pg) (state pg)"
  have ok: "stateLen pg = length (state pg)" "length (state pg) \<le> MaxLen (config pg)"
    "\<forall>d \<in> set (state pg). d < charsetLen pg" "charsetLen pg = length (charset pg)"
    "0 < charsetLen pg"
    using assms by (auto simp: counter_ok_def)
  have gt: "stateLen pg + 1 > MaxLen (config pg) \<longleftrightarrow> stateLen pg = MaxLen (config pg)"
    using ok(1,2) by auto
  have ns: "nextState pg =
     (if \<not> fst r then Ret None (pg\<lparr>state := snd r\<rparr>)
      else if stateLen pg = MaxLen (config pg)
           then Ret (Some EOF) (pg\<lparr>state := snd r, stateLen := stateLen pg + 1\<rparr>)
           else Ret None (pg\<lparr>state := snd r @ [0], stateLen := stateLen pg + 1\<rparr>))"
    unfolding nextState_increment [OF ok(1)] Let_def gt r_def by simp
  have carry: "fst r \<longleftrightarrow> (\<forall>d \<in> set (state pg). d + 1 = charsetLen pg)"
    unfolding r_def increment_carry using ok(3) by (fastforce simp: not_less)
  have len: "length (snd r) = length (state pg)" by (simp add: r_def increment_length)
  have bnd: "\<forall>d \<in> set (snd r). d < charsetLen pg"
    unfolding r_def using ok(3) by (rule increment_bound)
  have zero: "fst r \<Longrightarrow> snd r = replicate (length (state pg)) 0"
    unfolding r_def by (rule increment_carry_zero)
  have p1: "nextState pg =
           (let (carry, ds) = increment (charsetLen pg) (state pg)
            in if \<not> carry then Ret None (pg\<lparr>state := ds\<rparr>)
               else if stateLen pg = MaxLen (config pg)
                    then Ret (Some EOF) (pg\<lparr>state := ds, stateLen := stateLen pg + 1\<rparr>)
                    else Ret None (pg\<lparr>state := ds @ [0], stateLen := stateLen pg + 1\<rparr>))"
    unfolding ns by (simp add: r_def split: prod.splits)
  have p2: "(\<exists>pg'. nextState pg = Ret (Some EOF) pg') \<longleftrightarrow>
            stateLen pg = MaxLen (config pg) \<and> (\<forall>d \<in> set (state pg). d + 1 = charsetLen pg)"
    unfolding ns using carry by auto
  have p3: "counter_ok pg'" if "nextState pg = Ret None pg'" for pg'
  proof (cases "fst r")
    case True
    with that have "pg' = pg\<lparr>state := snd r @ [0], stateLen := stateLen pg + 1\<rparr>"
      and "stateLen pg \<noteq> MaxLen (config pg)"
      unfolding ns by (auto split: if_splits)
    then show ?thesis using ok len bnd by (auto simp: counter_ok_def)
  next
    case False
    with that have "pg' = pg\<lparr>state := snd r\<rparr>" unfolding ns by simp
    then show ?thesis using ok len bnd by (auto simp: counter_ok_def)
  qed
  have p4: "state pg' = replicate (MaxLen (config pg)) 0 \<and> stateLen pg' = MaxLen (config pg) + 1"
    if "nextState pg = Ret (Some EOF) pg'" for pg'
  proof -
    from that have "fst r" "stateLen pg = MaxLen (config pg)"
      and "pg' = pg\<lparr>state := snd r, stateLen := stateLen pg + 1\<rparr>"
      unfolding ns by (auto split: if_splits)
    then show ?thesis using zero ok(1) by simp
  qed
  show ?thesis using p1 p2 p3 p4 by blast
qed

theorem advance_exhausted_iff_witness:
  "counter_ok last_counter \<and> nextState last_counter = Ret (Some EOF) exhausted_counter \<and>
   stateLen last_counter = MaxLen (config last_counter)"
proof -
  have "\<exists>pg'. nextState last_counter = Ret (Some EOF) pg'"
    using advance_exhausted_iff [OF counter_ok_last_counter]
    by (simp add: last_counter_def test_engine_def test_config_def)
  then obtain pg' where e: "nextState last_counter = Ret (Some EOF) pg'" ..
  moreover have "nextState last_counter = Ret (Some EOF) exhausted_counter" by code_simp
  ultimately show ?thesis using counter_ok_last_counter
    by (simp add: last_counter_def test_engine_def test_config_def)
qed

theorem advance_not_idempotent_counterexample:
  "nextState last_counter = Ret (Some EOF) exhausted_counter \<and>
   nextState exhausted_counter = Ret None (exhausted_counter\<lparr>state := [1, 0]\<rparr>)"
  by code_simp

subsection \<open>The enumeration\<close>

lemma length_digits [simp]: "length (digits R L n) = L"
  by (induction L arbitrary: n) auto

lemma digits_bound: "0 < R \<Longrightarrow> \<forall>d \<in> set (digits R L n). d < R"
  by (induction L arbitrary: n) auto

lemma digits_zero: "0 < R \<Longrightarrow> digits R L 0 = replicate L 0"
  by (induction L) auto

lemma digits_inj:
  "digits R L n = digits R L m \<Longrightarrow> n < R ^ L \<Longrightarrow> m < R ^ L \<Longrightarrow> n = m"
proof (induction L arbitrary: n m)
  case 0
  then show ?case by simp
next
  case (Suc L)
  have R: "0 < R" using Suc.prems(2) by (cases R) auto
  have h: "n mod R = m mod R" and t: "digits R L (n div R) = digits R L (m div R)"
    using Suc.prems(1) by auto
  have "n div R < R ^ L" "m div R < R ^ L"
    using Suc.prems(2,3) R by (simp_all add: less_mult_imp_div_less mult.commute)
  with Suc.IH [OF t] have "n div R = m div R" by simp
  with h show ?case by (metis div_mult_mod_eq)
qed

lemma digits_surj:
  "\<forall>d \<in> set ds. d < R \<Longrightarrow> \<exists>n < R ^ length ds. digits R (length ds) n = ds"
proof (induction ds)
  case Nil
  then show ?case by simp
next
  case (Cons d ds)
  then obtain n where n: "n < R ^ length ds" "digits R (length ds) n = ds" by auto
  have d: "d < R" using Cons.prems by simp
  have "d + R * n < R * R ^ length ds"
  proof -
    have "d + R * n < R + R * n" using d by simp
    also have "\<dots> = R * Suc n" by simp
    also have "\<dots> \<le> R * R ^ length ds" using n(1) by (intro mult_le_mono2) simp
    finally show ?thesis .
  qed
  moreover have "digits R (Suc (length ds)) (d + R * n) = d # ds"
    using d n(2) by simp
  ultimately show ?case by (intro exI [of _ "d + R * n"]) simp
qed

lemma increment_digits:
  assumes "0 < R" "n < R ^ L"
  shows "increment R (digits R L n) =
           (if Suc n < R ^ L then (False, digits R L (Suc n)) else (True, replicate L 0))"
  using assms(2)
proof (induction L arbitrary: n)
  case 0
  then show ?case by simp
next
  case (Suc L)
  have q: "n div R < R ^ L"
    using Suc.prems assms(1) by (simp add: less_mult_imp_div_less mult.commute)
  show ?case
  proof (cases "n mod R + 1 < R")
    case True
    then have m: "Suc n mod R = Suc (n mod R)" "Suc n div R = n div R"
      by (auto simp: mod_Suc div_Suc)
    have "Suc n \<noteq> R * R ^ L"
    proof
      assume "Suc n = R * R ^ L"
      then have "Suc n mod R = 0" by simp
      with m(1) show False by simp
    qed
    with Suc.prems have "Suc n < R ^ Suc L" by simp
    then show ?thesis using True m by simp
  next
    case False
    then have e: "Suc (n mod R) = R" using assms(1) mod_less_divisor [of R n] by linarith
    then have m: "Suc n mod R = 0" "Suc n div R = Suc (n div R)"
      by (auto simp: mod_Suc div_Suc)
    have sn: "Suc n = R * Suc (n div R)"
      using m(1) m(2) by (metis mult.commute add.right_neutral div_mult_mod_eq)
    have "R * Suc (n div R) < R * R ^ L \<longleftrightarrow> Suc (n div R) < R ^ L"
      by (rule nat_mult_less_cancel1 [OF assms(1)])
    then have lt: "Suc n < R ^ Suc L \<longleftrightarrow> Suc (n div R) < R ^ L"
      using sn by (simp only: power_Suc)
    show ?thesis using False Suc.IH [OF q] lt m by (simp add: Let_def)
  qed
qed

lemma counter_ok_digits:
  assumes "state pg = digits R L n" "stateLen pg = L" "L \<le> MaxLen (config pg)"
    "charsetLen pg = R" "length (charset pg) = R" "0 < R"
  shows "counter_ok pg"
  using assms digits_bound [OF assms(6), of L n] by (simp add: counter_ok_def)

lemma nextState_digits:
  assumes "state pg = digits R L n" "stateLen pg = L" "L \<le> MaxLen (config pg)"
    "charsetLen pg = R" "0 < R" "n < R ^ L"
  shows "nextState pg =
     (if Suc n < R ^ L then Ret None (pg\<lparr>state := digits R L (Suc n)\<rparr>)
      else if L = MaxLen (config pg)
           then Ret (Some EOF) (pg\<lparr>state := replicate L 0, stateLen := Suc L\<rparr>)
           else Ret None (pg\<lparr>state := digits R (Suc L) 0, stateLen := Suc L\<rparr>))"
proof -
  have sl: "stateLen pg = length (state pg)" using assms(1,2) by simp
  have z: "replicate L 0 @ [0::nat] = digits R (Suc L) 0"
    using digits_zero [OF assms(5), of "Suc L"] by (simp add: replicate_append_same)
  show ?thesis
    unfolding nextState_increment [OF sl] assms(1,4) increment_digits [OF assms(5,6)] Let_def
    using assms(2,3) z by auto
qed

lemma produced_step:
  assumes "counter_ok pg"
  shows "produced pg =
     (case nextState pg of
        Panic \<Rightarrow> None
      | Ret (Some e) pg' \<Rightarrow> Some [word_of (charset pg) (state pg)]
      | Ret None pg' \<Rightarrow>
          Option.bind (produced pg') (\<lambda>ws. Some (word_of (charset pg) (state pg) # ws)))"
  by (subst produced.simps) (simp add: decode_word_of [OF assms])

lemma produced_digits:
  assumes "charsetLen pg = R" "length (charset pg) = R" "0 < R" "MaxLen (config pg) = M"
    "state pg = digits R L n" "stateLen pg = L" "L \<le> M" "n < R ^ L"
  shows "produced pg =
     Some (map (word_of (charset pg))
            (map (digits R L) [n..<R ^ L] @ concat (map (odometer R) [Suc L..<Suc M])))"
  using assms
proof (induction "(\<Sum>l = L..M. R ^ l) - n" arbitrary: L n pg rule: less_induct)
  case less
  note IH = less.hyps and f = less.prems
  have ok: "counter_ok pg"
    using counter_ok_digits [of pg R L n] f by simp
  have ns: "nextState pg =
     (if Suc n < R ^ L then Ret None (pg\<lparr>state := digits R L (Suc n)\<rparr>)
      else if L = M then Ret (Some EOF) (pg\<lparr>state := replicate L 0, stateLen := Suc L\<rparr>)
      else Ret None (pg\<lparr>state := digits R (Suc L) 0, stateLen := Suc L\<rparr>))"
    using nextState_digits [of pg R L n] f by simp
  note ps = produced_step [OF ok]
  have sum: "(\<Sum>l = L..M. R ^ l) = R ^ L + (\<Sum>l = Suc L..M. R ^ l)"
    using f(7) by (simp add: sum.atLeast_Suc_atMost)
  show ?case
  proof (cases "Suc n < R ^ L")
    case True
    let ?pg' = "pg\<lparr>state := digits R L (Suc n)\<rparr>"
    have "produced ?pg' =
       Some (map (word_of (charset ?pg'))
              (map (digits R L) [Suc n..<R ^ L] @ concat (map (odometer R) [Suc L..<Suc M])))"
      by (rule IH) (use f True sum in simp_all)
    moreover have "[n..<R ^ L] = n # [Suc n..<R ^ L]" using f(8) by (simp add: upt_conv_Cons)
    ultimately show ?thesis
      unfolding ps ns using True f(5) by simp
  next
    case False
    then have last: "[n..<R ^ L] = [n]" using f(8) by (simp add: upt_conv_Cons)
    show ?thesis
    proof (cases "L = M")
      case True
      then show ?thesis
        unfolding ps ns using False last f(5) by simp
    next
      case LM: False
      let ?pg' = "pg\<lparr>state := digits R (Suc L) 0, stateLen := Suc L\<rparr>"
      have pos: "0 < R ^ Suc L" using f(3) by simp
      have "produced ?pg' =
         Some (map (word_of (charset ?pg'))
                (map (digits R (Suc L)) [0..<R ^ Suc L] @
                 concat (map (odometer R) [Suc (Suc L)..<Suc M])))"
      proof (rule IH)
        have "(\<Sum>l = Suc L..M. R ^ l) < (\<Sum>l = L..M. R ^ l) - n"
          unfolding sum using f(8) by simp
        then show "(\<Sum>l = Suc L..M. R ^ l) - 0 < (\<Sum>l = L..M. R ^ l) - n" by simp
      qed (use f LM pos in simp_all)
      moreover have "[Suc L..<Suc M] = Suc L # [Suc (Suc L)..<Suc M]"
        using f(7) LM by (simp add: upt_conv_Cons)
      ultimately show ?thesis
        unfolding ps ns using False LM last f(5) by (simp add: odometer_def)
    qed
  qed
qed

subsection \<open>The words the producer writes\<close>

lemma length_odometer: "length (odometer R L) = R ^ L"
  by (simp add: odometer_def)

lemma length_enumeration: "length (enumeration R lo hi) = (\<Sum>L = lo..hi. R ^ L)"
proof -
  have "length (enumeration R lo hi) = sum_list (map (\<lambda>L. R ^ L) [lo..<Suc hi])"
    by (simp add: enumeration_def length_concat comp_def length_odometer del: upt_Suc)
  also have "\<dots> = (\<Sum>L = lo..hi. R ^ L)"
    by (simp only: interv_sum_list_conv_sum_set_nat set_upt atLeastLessThanSuc_atLeastAtMost)
  finally show ?thesis .
qed

lemma distinct_odometer: "distinct (odometer R L)"
  unfolding odometer_def
  by (rule distinct_map [THEN iffD2]) (auto intro!: inj_onI dest: digits_inj)

lemma set_odometer_length: "ds \<in> set (odometer R L) \<Longrightarrow> length ds = L"
  by (auto simp: odometer_def)

lemma distinct_concat_odometer: "distinct Ls \<Longrightarrow> distinct (concat (map (odometer R) Ls))"
proof (induction Ls)
  case Nil
  then show ?case by simp
next
  case (Cons L Ls)
  have "set (odometer R L) \<inter> set (concat (map (odometer R) Ls)) = {}"
  proof (rule ccontr)
    assume "\<not> ?thesis"
    then obtain ds K where "ds \<in> set (odometer R L)" "K \<in> set Ls" "ds \<in> set (odometer R K)"
      by auto
    then have "L = K" using set_odometer_length by blast
    with \<open>K \<in> set Ls\<close> Cons.prems show False by simp
  qed
  with Cons show ?case by (simp add: distinct_odometer)
qed

lemma distinct_enumeration: "distinct (enumeration R lo hi)"
  unfolding enumeration_def by (rule distinct_concat_odometer) (rule distinct_upt)

lemma set_enumeration:
  assumes "0 < R"
  shows "set (enumeration R lo hi) =
           {ds. lo \<le> length ds \<and> length ds \<le> hi \<and> (\<forall>d \<in> set ds. d < R)}"
proof (intro set_eqI iffI)
  fix ds assume "ds \<in> set (enumeration R lo hi)"
  then obtain L where "lo \<le> L" "L \<le> hi" "ds \<in> set (odometer R L)"
    by (auto simp: enumeration_def simp del: upt_Suc)
  then show "ds \<in> {ds. lo \<le> length ds \<and> length ds \<le> hi \<and> (\<forall>d \<in> set ds. d < R)}"
    using digits_bound [OF assms] by (auto simp: odometer_def)
next
  fix ds assume "ds \<in> {ds. lo \<le> length ds \<and> length ds \<le> hi \<and> (\<forall>d \<in> set ds. d < R)}"
  then have l: "lo \<le> length ds" "length ds \<le> hi" and b: "\<forall>d \<in> set ds. d < R" by auto
  from digits_surj [OF b] obtain n where "n < R ^ length ds" "digits R (length ds) n = ds"
    by auto
  then have "ds \<in> set (odometer R (length ds))" by (force simp: odometer_def)
  with l show "ds \<in> set (enumeration R lo hi)"
    by (auto simp: enumeration_def simp del: upt_Suc)
qed

lemma word_of_inj:
  assumes "distinct cs" "\<forall>d \<in> set xs. d < length cs" "\<forall>d \<in> set ys. d < length cs"
    "word_of cs xs = word_of cs ys"
  shows "xs = ys"
proof (rule nth_equalityI)
  show len: "length xs = length ys"
    using assms(4) by (metis length_map word_of_def)
  fix i assume i: "i < length xs"
  then have "cs ! (xs ! i) = cs ! (ys ! i)"
    using assms(4) len by (metis nth_map word_of_def)
  moreover have "xs ! i < length cs" "ys ! i < length cs"
    using assms(2,3) i len by auto
  ultimately show "xs ! i = ys ! i"
    using assms(1) by (simp add: nth_eq_iff_index_eq)
qed

lemma distinct_words:
  assumes "distinct cs" "0 < length cs"
  shows "distinct (map (word_of cs) (enumeration (length cs) lo hi))"
proof (rule distinct_map [THEN iffD2], intro conjI inj_onI)
  show "distinct (enumeration (length cs) lo hi)" by (rule distinct_enumeration)
next
  fix xs ys
  assume "xs \<in> set (enumeration (length cs) lo hi)" "ys \<in> set (enumeration (length cs) lo hi)"
    "word_of cs xs = word_of cs ys"
  then show "xs = ys"
    using word_of_inj [OF assms(1), of xs ys] by (simp add: set_enumeration [OF assms(2)])
qed

lemma Run_Inr:
  assumes "Run now g = Inr pg"
  shows "pg = g\<lparr>startTime := Some now, endTime := None, state := initialState g,
                 stateLen := length (initialState g), bufR := 0, bufW := 0, running := True\<rparr>"
  using assms by (simp add: Run_def split: if_splits)

lemma produced_after_Run:
  assumes "NewWordGen cfg = Inr g" "Run now g = Inr pg"
    "initialState g = digits (length (Charset (applyDefaults cfg))) L n"
    "L \<le> MaxLen (applyDefaults cfg)" "n < length (Charset (applyDefaults cfg)) ^ L"
  shows "produced pg =
     Some (map (word_of (Charset (applyDefaults cfg)))
            (map (digits (length (Charset (applyDefaults cfg))) L)
                 [n..<length (Charset (applyDefaults cfg)) ^ L] @
             concat (map (odometer (length (Charset (applyDefaults cfg))))
                      [Suc L..<Suc (MaxLen (applyDefaults cfg))])))"
proof -
  define c where "c = applyDefaults cfg"
  note g = NewWordGen_Inr [OF assms(1), folded c_def]
  note pg = Run_Inr [OF assms(2)]
  have R: "0 < length (Charset c)" using applyDefaults_fields(3) [of cfg] by (simp add: c_def)
  have "produced pg =
     Some (map (word_of (charset pg))
            (map (digits (length (Charset c)) L) [n..<length (Charset c) ^ L] @
             concat (map (odometer (length (Charset c))) [Suc L..<Suc (MaxLen c)])))"
    by (rule produced_digits)
       (use g(1,2,3) R assms(3,4,5) in \<open>simp_all add: pg clampBuffer_fields c_def\<close>)
  then show ?thesis using g(2) by (simp add: pg c_def)
qed

lemma produced_enumeration:
  assumes "NewWordGen cfg = Inr g" "InitialState cfg = []" "Run now g = Inr pg"
  shows "\<exists>ws. produced pg = Some ws \<and>
           ws = map (word_of (Charset (applyDefaults cfg)))
                  (enumeration (length (Charset (applyDefaults cfg)))
                     (MinLen (applyDefaults cfg)) (MaxLen (applyDefaults cfg))) \<and>
           length ws = (\<Sum>L = MinLen (applyDefaults cfg)..MaxLen (applyDefaults cfg).
                          length (Charset (applyDefaults cfg)) ^ L) \<and>
           distinct ws \<and>
           set (enumeration (length (Charset (applyDefaults cfg)))
                  (MinLen (applyDefaults cfg)) (MaxLen (applyDefaults cfg))) =
             {ds. MinLen (applyDefaults cfg) \<le> length ds \<and>
                  length ds \<le> MaxLen (applyDefaults cfg) \<and>
                  (\<forall>d \<in> set ds. d < length (Charset (applyDefaults cfg)))}"
proof -
  define c where "c = applyDefaults cfg"
  define R where "R = length (Charset c)"
  note g = NewWordGen_Inr [OF assms(1), folded c_def]
  have R: "0 < R" using applyDefaults_fields(3) [of cfg] by (simp add: c_def R_def)
  have i: "initialState g = digits R (MinLen c) 0"
    using g(15) [OF assms(2)] by (simp add: digits_zero [OF R])
  have pp: "produced pg =
     Some (map (word_of (Charset c))
            (map (digits R (MinLen c)) [0..<R ^ MinLen c] @
             concat (map (odometer R) [Suc (MinLen c)..<Suc (MaxLen c)])))"
    unfolding c_def R_def
    by (rule produced_after_Run [OF assms(1,3)])
       (use i g(5) R in \<open>simp_all add: c_def R_def\<close>)
  have e: "map (digits R (MinLen c)) [0..<R ^ MinLen c] @
             concat (map (odometer R) [Suc (MinLen c)..<Suc (MaxLen c)]) =
           enumeration R (MinLen c) (MaxLen c)"
    using g(5) by (simp add: enumeration_def odometer_def upt_conv_Cons del: upt_Suc)
  have p: "produced pg = Some (map (word_of (Charset c)) (enumeration R (MinLen c) (MaxLen c)))"
    using pp unfolding e .
  have l: "length (map (word_of (Charset c)) (enumeration R (MinLen c) (MaxLen c)))
             = (\<Sum>L = MinLen c..MaxLen c. R ^ L)"
    by (simp add: length_enumeration)
  have d: "distinct (map (word_of (Charset c)) (enumeration R (MinLen c) (MaxLen c)))"
    unfolding R_def using g(4) R by (intro distinct_words) (simp_all add: R_def)
  show ?thesis
    using p l d set_enumeration [OF R, of "MinLen c" "MaxLen c"]
    unfolding c_def R_def by blast
qed

lemma Run_test_engine: "Run 1 test_engine = Inr test_started"
  by (simp add: Run_def test_engine_def test_started_def)

lemma produced_test_started:
  "produced test_started =
     Some [''a'', ''b'', ''c'', ''aa'', ''ba'', ''ca'', ''ab'', ''bb'', ''cb'', ''ac'', ''bc'', ''cc'']"
  by code_simp

subsection \<open>Splitting the enumeration at a state\<close>

lemma applyDefaults_InitialState_update:
  "applyDefaults (cfg\<lparr>InitialState := w\<rparr>) = (applyDefaults cfg)\<lparr>InitialState := w\<rparr>"
  by (simp add: applyDefaults_def Let_def)

lemma Run_not_running: "\<not> running g \<Longrightarrow> \<exists>pg. Run now g = Inr pg"
  by (simp add: Run_def)

lemma enumeration_split:
  assumes "lo \<le> L" "L \<le> hi" "n < R ^ L"
  shows "enumeration R lo hi =
           (concat (map (odometer R) [lo..<L]) @ map (digits R L) [0..<n]) @
           (map (digits R L) [n..<R ^ L] @ concat (map (odometer R) [Suc L..<Suc hi]))"
proof -
  obtain k where k: "Suc hi = L + k" using assms(2) le_Suc_ex [of L "Suc hi"] by auto
  have "[lo..<L + k] = [lo..<L] @ [L..<L + k]" using assms(1) by (rule upt_add_eq_append)
  moreover have "[L..<Suc hi] = L # [Suc L..<Suc hi]"
    using assms(2) by (simp add: upt_conv_Cons del: upt_Suc)
  ultimately have a: "[lo..<Suc hi] = [lo..<L] @ L # [Suc L..<Suc hi]"
    unfolding k by simp
  obtain j where j: "R ^ L = n + j" using assms(3) le_Suc_ex [of n "R ^ L"] by auto
  have "[0..<n + j] = [0..<n] @ [n..<n + j]" by (rule upt_add_eq_append) simp
  then have b: "[0..<R ^ L] = [0..<n] @ [n..<R ^ L]" unfolding j .
  have "odometer R L = map (digits R L) [0..<n] @ map (digits R L) [n..<R ^ L]"
    unfolding odometer_def by (subst b) simp
  then show ?thesis
    unfolding enumeration_def a by simp
qed

lemma NewWordGen_test_config_initial:
  "NewWordGen test_config_initial =
     Inr (test_engine\<lparr>config := test_config_initial, initialState := [1, 0]\<rparr>)"
proof -
  have r: "replicate 2 (0 :: nat) = [0, 0]" by (simp add: numeral_2_eq_2)
  show ?thesis
    by (simp add: NewWordGen_eval test_config_initial_def test_config_def test_engine_def r)
qed

lemma Run_test_engine_initial:
  "Run 1 (test_engine\<lparr>config := test_config_initial, initialState := [1, 0]\<rparr>)
     = Inr test_started_initial"
  by (simp add: Run_def test_engine_def test_started_initial_def)

lemma produced_test_started_initial:
  "produced test_started_initial =
     Some [''ba'', ''ca'', ''ab'', ''bb'', ''cb'', ''ac'', ''bc'', ''cc'']"
  by code_simp

subsection \<open>The example of the tests\<close>

lemma enumeration_abc:
  "map (word_of ''abc'') (enumeration 3 1 2) =
     [''a'', ''b'', ''c'', ''aa'', ''ba'', ''ca'', ''ab'', ''bb'', ''cb'', ''ac'', ''bc'', ''cc'']"
  by code_simp

lemma session_test_started:
  "session 2 test_started [] =
     Some ([''a'', ''b'', ''c'', ''aa'', ''ba'', ''ca'', ''ab'', ''bb'', ''cb'', ''ac'', ''bc'', ''cc''],
           test_finished)"
  by code_simp

lemma Next_test_finished: "Next test_finished = Ret (NextErr EOF) test_finished"
  by (simp add: Next_def test_finished_def test_engine_def)

lemma decode_last_counter: "decode last_counter = Some ''cc''"
  by code_simp

text \<open>
  C2: the slot is filled with \<open>symbol(d[0]) \<dots> symbol(d[L-1])\<close> in index order, with no
  reversal. For the charset \<open>abc\<close> and the lengths 1 to 2, with any buffer size, the
  producer writes \<open>a, b, c, aa, ba, ca, ab, bb, cb, ac, bc, cc\<close>; in the engine of the tests
  (buffer size 10) the consumer gets these 12 words in this order and then \<^verbatim>\<open>io.EOF\<close>.
\<close>

theorem decode_in_index_order:
  "(\<forall>pg. counter_ok pg \<longrightarrow> decode pg = Some (map (\<lambda>d. charset pg ! d) (state pg))) \<and>
   (\<forall>cfg g now pg.
      NewWordGen cfg = Inr g \<and> Charset cfg = ''abc'' \<and> MinLen cfg = 1 \<and> MaxLen cfg = 2 \<and>
      InitialState cfg = [] \<and> Run now g = Inr pg \<longrightarrow>
      produced pg =
        Some [''a'', ''b'', ''c'', ''aa'', ''ba'', ''ca'', ''ab'', ''bb'', ''cb'', ''ac'', ''bc'',
              ''cc'']) \<and>
   NewWordGen test_config = Inr test_engine \<and> Run 1 test_engine = Inr test_started \<and>
   session 2 test_started [] =
     Some ([''a'', ''b'', ''c'', ''aa'', ''ba'', ''ca'', ''ab'', ''bb'', ''cb'', ''ac'', ''bc'', ''cc''],
           test_finished) \<and>
   Next test_finished = Ret (NextErr EOF) test_finished"
proof -
  have d: "decode pg = Some (map (\<lambda>d. charset pg ! d) (state pg))" if "counter_ok pg" for pg
    using decode_word_of [OF that] by (simp add: word_of_def)
  have p: "produced pg =
        Some [''a'', ''b'', ''c'', ''aa'', ''ba'', ''ca'', ''ab'', ''bb'', ''cb'', ''ac'', ''bc'',
              ''cc'']"
    if a: "NewWordGen cfg = Inr g" "Charset cfg = ''abc''" "MinLen cfg = 1" "MaxLen cfg = 2"
      "InitialState cfg = []" "Run now g = Inr pg" for cfg g now pg
  proof -
    have c: "Charset (applyDefaults cfg) = ''abc''" "MinLen (applyDefaults cfg) = 1"
      "MaxLen (applyDefaults cfg) = 2"
      using a(2,3,4) by (simp_all add: applyDefaults_def Let_def)
    have l: "length ''abc'' = 3" by simp
    from produced_enumeration [OF a(1,5,6)]
    have "produced pg = Some (map (word_of ''abc'') (enumeration (length ''abc'') 1 2))"
      unfolding c by blast
    then show ?thesis unfolding l enumeration_abc .
  qed
  show ?thesis
    using d p NewWordGen_test_config Run_test_engine session_test_started Next_test_finished
    by blast
qed

theorem decode_in_index_order_witness:
  "counter_ok last_counter \<and> state last_counter = [2, 2] \<and> decode last_counter = Some ''cc'' \<and>
   NewWordGen test_config = Inr test_engine \<and> Charset test_config = ''abc'' \<and>
   MinLen test_config = 1 \<and> MaxLen test_config = 2 \<and> InitialState test_config = [] \<and>
   Run 1 test_engine = Inr test_started \<and>
   produced test_started =
     Some [''a'', ''b'', ''c'', ''aa'', ''ba'', ''ca'', ''ab'', ''bb'', ''cb'', ''ac'', ''bc'', ''cc'']"
proof -
  have c: "Charset test_config = ''abc''" "MinLen test_config = 1" "MaxLen test_config = 2"
    "InitialState test_config = []"
    by (simp_all add: test_config_def)
  have s: "state last_counter = [2, 2]" by (simp add: last_counter_def)
  have "produced test_started =
     Some [''a'', ''b'', ''c'', ''aa'', ''ba'', ''ca'', ''ab'', ''bb'', ''cb'', ''ac'', ''bc'', ''cc'']"
    using decode_in_index_order NewWordGen_test_config c Run_test_engine by blast
  then show ?thesis
    using counter_ok_last_counter s decode_last_counter NewWordGen_test_config c Run_test_engine
    by (intro conjI) assumption+
qed

subsection \<open>The ring buffer\<close>

lemma roundToNearestPowerOfTwo_pow2_or_zero:
  "roundToNearestPowerOfTwo n AND (roundToNearestPowerOfTwo n - 1) = 0"
proof -
  define L where "L = Len64 n"
  have nx: "push_bit L (1 :: 64 word) = 2 ^ L" by simp
  have pv: "drop_bit 1 (2 ^ L :: 64 word) = 0 \<or> drop_bit 1 (2 ^ L :: 64 word) = 2 ^ (L - 1)"
  proof (cases "L < 64 \<and> 0 < L")
    case True
    then have "drop_bit 1 (2 ^ L :: 64 word) = 2 ^ (L - 1)"
      by (simp add: drop_bit_exp_eq Suc_leI)
    then show ?thesis ..
  next
    case False
    then have "L = 0 \<or> 64 \<le> L" by auto
    then have "drop_bit 1 (2 ^ L :: 64 word) = 0"
    proof
      assume "L = 0"
      then show ?thesis by (simp add: drop_bit_Suc)
    next
      assume "64 \<le> L"
      then have z: "(2 ^ L :: 64 word) = 0" by simp
      show ?thesis unfolding z by simp
    qed
    then show ?thesis ..
  qed
  have p: "drop_bit 1 (2 ^ L :: 64 word) AND (drop_bit 1 (2 ^ L :: 64 word) - 1) = 0"
    using pv exp_and_pred_zero [of "L - 1"] by auto
  show ?thesis
    unfolding roundToNearestPowerOfTwo_def Let_def L_def [symmetric] nx
    using p exp_and_pred_zero [of L] by simp
qed

lemma unat_and_mask: "k \<le> 64 \<Longrightarrow> unat ((word_of_nat c :: 64 word) AND mask k) = c mod 2 ^ k"
proof -
  assume k: "k \<le> 64"
  have "(word_of_nat c :: 64 word) AND mask k = word_of_nat (take_bit k c)"
    by (simp add: take_bit_of_nat flip: take_bit_eq_mask)
  moreover have "take_bit k c < 2 ^ LENGTH(64)"
  proof -
    have "take_bit k c < 2 ^ k" by simp
    also have "(2::nat) ^ k \<le> 2 ^ 64" using k by (intro power_increasing) simp_all
    finally show ?thesis by simp
  qed
  ultimately have "unat ((word_of_nat c :: 64 word) AND mask k) = take_bit k c"
    by (simp add: unat_of_nat take_bit_nat_eq_self_iff [symmetric] del: take_bit_nat_eq_self_iff)
  then show ?thesis by (simp add: take_bit_eq_mod)
qed

lemma slot_mod:
  assumes "bufMask pg = 2 ^ k - 1" "k < 64"
  shows "slot pg c = c mod 2 ^ k"
  unfolding slot_def assms(1) using unat_and_mask [of k c] assms(2)
  by (simp add: mask_eq_exp_minus_1)

lemma buffer_ok_pow2:
  assumes "buffer_ok pg" "bufSize pg \<noteq> 0"
  shows "\<exists>k<64. bufSize pg = 2 ^ k \<and> bufMask pg = 2 ^ k - 1 \<and> length (buf pg) = 2 ^ k"
proof -
  from assms have a: "bufSize pg AND (bufSize pg - 1) = 0" "bufMask pg = bufSize pg - 1"
    "length (buf pg) = unat (bufSize pg)"
    by (auto simp: buffer_ok_def)
  from and_pred_zero_pow2_word [OF assms(2) a(1)] obtain k where k: "k < 64" "bufSize pg = 2 ^ k"
    by blast
  then show ?thesis using a(2,3) by (auto simp: unat_two_power)
qed

lemma slot_in_range:
  assumes "buffer_ok pg" "bufSize pg \<noteq> 0"
  shows "slot pg c < length (buf pg)"
proof -
  from buffer_ok_pow2 [OF assms] obtain k where
    k: "k < 64" "bufMask pg = 2 ^ k - 1" "length (buf pg) = 2 ^ k" by blast
  show ?thesis unfolding slot_mod [OF k(2,1)] k(3) by simp
qed

lemma slot_distinct:
  assumes "buffer_ok pg" "bufSize pg \<noteq> 0" "c < w" "w - c < unat (bufSize pg)"
  shows "slot pg c \<noteq> slot pg w"
proof -
  from buffer_ok_pow2 [OF assms(1,2)] obtain k where
    k: "k < 64" "bufSize pg = 2 ^ k" "bufMask pg = 2 ^ k - 1" by blast
  have lt: "w - c < 2 ^ k" using assms(4) k(1,2) by (simp add: unat_two_power)
  have "c mod 2 ^ k \<noteq> w mod 2 ^ k"
  proof
    assume "c mod 2 ^ k = w mod 2 ^ k"
    then have "w mod 2 ^ k = c mod 2 ^ k" by simp
    then have "(2::nat) ^ k dvd w - c"
      using assms(3) by (simp add: mod_eq_dvd_iff_nat)
    moreover have "0 < w - c" using assms(3) by simp
    ultimately have "(2::nat) ^ k \<le> w - c" by (rule dvd_imp_le)
    with lt show False by simp
  qed
  then show ?thesis unfolding slot_mod [OF k(3,1)] .
qed

lemma occupancy_unat:
  assumes "cursors_ok pg"
  shows "unat (occupancy pg) = bufW pg - bufR pg"
proof -
  from assms have a: "bufR pg \<le> bufW pg" "bufW pg - bufR pg \<le> unat (bufSize pg)"
    by (auto simp: cursors_ok_def)
  have "unat (bufSize pg) < 2 ^ LENGTH(64)" by (rule unsigned_less)
  with a(2) have lt: "bufW pg - bufR pg < 2 ^ LENGTH(64)" by linarith
  have "occupancy pg = word_of_nat (bufW pg - bufR pg)"
    using a(1) by (simp add: occupancy_def)
  then show ?thesis using lt by (simp add: unat_of_nat del: of_nat_diff)
qed

lemma not_full_iff:
  assumes "cursors_ok pg"
  shows "\<not> occupancy pg \<ge> bufSize pg \<longleftrightarrow> bufW pg - bufR pg < unat (bufSize pg)"
  by (simp add: word_le_nat_alt occupancy_unat [OF assms] not_le)

subsection \<open>Steps of the engine\<close>

lemma nextState_loop_frame:
  "nextState_loop i pg = Ret e pg' \<Longrightarrow> \<exists>st sl. pg' = pg\<lparr>state := st, stateLen := sl\<rparr>"
proof (induction i pg rule: nextState_loop.induct)
  case (1 i pg)
  show ?case
  proof (cases "i \<ge> stateLen pg")
    case True
    with 1(2) have "pg' = pg\<lparr>state := state pg', stateLen := stateLen pg'\<rparr>"
      by (subst (asm) nextState_loop.simps) (auto simp: Let_def split: if_splits)
    then show ?thesis by blast
  next
    case False
    show ?thesis
    proof (cases "i \<ge> length (state pg)")
      case True
      with False 1(2) show ?thesis by (subst (asm) nextState_loop.simps) simp
    next
      case il: False
      show ?thesis
      proof (cases "Suc (state pg ! i) < charsetLen pg")
        case True
        with False il 1(2) have "pg' = pg\<lparr>state := state pg', stateLen := stateLen pg\<rparr>"
          by (subst (asm) nextState_loop.simps) (auto simp: Let_def)
        then show ?thesis by blast
      next
        case nc: False
        let ?pg1 = "pg\<lparr>state := (state pg)[i := state pg ! i + 1]\<rparr>"
        have r: "nextState_loop (Suc i) (?pg1\<lparr>state := (state ?pg1)[i := 0]\<rparr>) = Ret e pg'"
          using False il nc 1(2) by (subst (asm) nextState_loop.simps) (simp add: Let_def)
        from 1(1) [OF False il refl _ r] nc il
        obtain st sl where "pg' = ?pg1\<lparr>state := (state ?pg1)[i := 0]\<rparr>\<lparr>state := st, stateLen := sl\<rparr>"
          by auto
        then have "pg' = pg\<lparr>state := st, stateLen := sl\<rparr>" by simp
        then show ?thesis by blast
      qed
    qed
  qed
qed

lemma nextState_frame:
  "nextState pg = Ret e pg' \<Longrightarrow> \<exists>st sl. pg' = pg\<lparr>state := st, stateLen := sl\<rparr>"
  unfolding nextState_def by (rule nextState_loop_frame)

lemma runGenerator_iter_cases:
  assumes "runGenerator_iter pg = Ret r pg'"
  shows "(pg' = pg \<and> (\<not> running pg \<or> occupancy pg \<ge> bufSize pg)) \<or>
         (running pg \<and> \<not> occupancy pg \<ge> bufSize pg \<and> slot pg (bufW pg) < length (buf pg) \<and>
          (\<exists>w st sl. decode pg = Some w \<and>
             pg' = pg\<lparr>buf := (buf pg)[slot pg (bufW pg) := w], bufW := bufW pg + 1,
                       generated := generated pg + 1, state := st, stateLen := sl\<rparr>))"
proof (cases "\<not> running pg \<or> occupancy pg \<ge> bufSize pg")
  case True
  with assms show ?thesis by (auto simp: runGenerator_iter_def split: if_splits)
next
  case False
  then have a: "running pg" "\<not> occupancy pg \<ge> bufSize pg" by auto
  from assms a have b: "slot pg (bufW pg) < length (buf pg)"
    by (auto simp: runGenerator_iter_def Let_def split: if_splits)
  from assms a b obtain w where w: "decode pg = Some w"
    by (auto simp: runGenerator_iter_def Let_def split: option.splits)
  let ?pg1 = "pg\<lparr>buf := (buf pg)[slot pg (bufW pg) := w], bufW := bufW pg + 1,
                   generated := generated pg + 1\<rparr>"
  from assms a b w obtain e where "nextState ?pg1 = Ret e pg'"
    by (auto simp: runGenerator_iter_def Let_def split: outcome.splits option.splits)
  from nextState_frame [OF this] obtain st sl where
    "pg' = ?pg1\<lparr>state := st, stateLen := sl\<rparr>" by blast
  then show ?thesis using a b w by auto
qed

lemma pop_cases:
  assumes "pop pg = Ret r pg'"
  shows "slot pg (bufR pg) < length (buf pg) \<and> r = Word (buf pg ! slot pg (bufR pg)) \<and>
         pg' = pg\<lparr>bufR := bufR pg + 1\<rparr>"
  using assms by (auto simp: pop_def Let_def split: if_splits)

lemma Next_cases:
  assumes "Next pg = Ret r pg'"
  shows "(pg' = pg \<and> bufR pg \<ge> bufW pg) \<or> (bufR pg < bufW pg \<and> pg' = pg\<lparr>bufR := bufR pg + 1\<rparr>)"
  using assms pop_cases [of pg r pg'] by (auto simp: Next_def split: if_splits)

lemma Next_wake_cases:
  assumes "Next_wake pg = Ret r pg'"
  shows "(pg' = pg \<and> bufR pg \<ge> bufW pg) \<or> (bufR pg < bufW pg \<and> pg' = pg\<lparr>bufR := bufR pg + 1\<rparr>)"
  using assms pop_cases [of pg r pg'] by (auto simp: Next_wake_def split: if_splits)

lemma Batch_loop_cases:
  "Batch_loop woken i count words pg = Ret r pg' \<Longrightarrow>
     \<exists>n. pg' = pg\<lparr>bufR := bufR pg + n\<rparr> \<and> (n = 0 \<or> bufR pg + n \<le> bufW pg)"
proof (induction woken i count words pg rule: Batch_loop.induct)
  case (1 woken i count words pg)
  show ?case
  proof (cases "i < length words \<and> bufR pg < bufW pg")
    case True
    let ?idx = "slot pg (bufR pg)"
    have il: "?idx < length (buf pg)"
      using 1(2) True by (subst (asm) Batch_loop.simps) (auto simp: Let_def split: if_splits)
    let ?pg1 = "pg\<lparr>bufR := bufR pg + 1\<rparr>"
    have r: "Batch_loop False (Suc i) (count + 1) (words[i := buf pg ! ?idx]) ?pg1 = Ret r pg'"
      using 1(2) True il by (subst (asm) Batch_loop.simps) (simp add: Let_def)
    from 1(1) [OF _ _ refl _ r] True il
    obtain n where n: "pg' = ?pg1\<lparr>bufR := bufR ?pg1 + n\<rparr>" "n = 0 \<or> bufR ?pg1 + n \<le> bufW ?pg1"
      by auto
    have "pg' = pg\<lparr>bufR := bufR pg + Suc n\<rparr>" using n(1) by simp
    moreover have "bufR pg + Suc n \<le> bufW pg" using n(2) True by auto
    ultimately show ?thesis by blast
  next
    case False
    then have "pg' = pg"
      using 1(2) by (subst (asm) Batch_loop.simps) (auto simp: Let_def split: if_splits)
    then show ?thesis by (intro exI [of _ 0]) simp
  qed
qed

lemma Batch_cases:
  "Batch words pg = Ret r pg' \<Longrightarrow>
     \<exists>n. pg' = pg\<lparr>bufR := bufR pg + n\<rparr> \<and> (n = 0 \<or> bufR pg + n \<le> bufW pg)"
  using Batch_loop_cases [of False 0 0 words pg r pg']
  by (auto simp: Batch_def split: if_splits intro: exI [of _ 0])

lemma Batch_wake_cases:
  "Batch_wake i count words pg = Ret r pg' \<Longrightarrow>
     \<exists>n. pg' = pg\<lparr>bufR := bufR pg + n\<rparr> \<and> (n = 0 \<or> bufR pg + n \<le> bufW pg)"
  unfolding Batch_wake_def by (rule Batch_loop_cases)

lemma after_Some: "after out = Some pg' \<longleftrightarrow> (\<exists>r. out = Ret r pg')"
  by (cases out) auto

lemma step_consumer:
  assumes "step ev pg = Some pg'" "\<not> is_run ev" "ev \<noteq> EvGen"
  shows "bufW pg' = bufW pg \<and> buf pg' = buf pg \<and> generated pg' = generated pg \<and>
         bufSize pg' = bufSize pg \<and> bufMask pg' = bufMask pg \<and>
         bufR pg \<le> bufR pg' \<and> (bufR pg' = bufR pg \<or> bufR pg < bufW pg \<and> bufR pg' \<le> bufW pg)"
proof (cases ev)
  case (EvRun now)
  with assms(2) show ?thesis by simp
next
  case EvStop
  with assms(1) show ?thesis by (auto simp: Stop_def)
next
  case EvGen
  with assms(3) show ?thesis by simp
next
  case (EvGenExit now)
  with assms(1) show ?thesis by (auto simp: generator_exit_def)
next
  case EvNext
  with assms(1) obtain r where "Next pg = Ret r pg'" by (auto simp: after_Some)
  from Next_cases [OF this] show ?thesis by auto
next
  case EvNextWake
  with assms(1) obtain r where "Next_wake pg = Ret r pg'" by (auto simp: after_Some)
  from Next_wake_cases [OF this] show ?thesis by auto
next
  case (EvBatch words)
  with assms(1) obtain r where "Batch words pg = Ret r pg'" by (auto simp: after_Some)
  from Batch_cases [OF this] show ?thesis by auto
next
  case (EvBatchWake i count words)
  with assms(1) obtain r where "Batch_wake i count words pg = Ret r pg'"
    by (auto simp: after_Some)
  from Batch_wake_cases [OF this] show ?thesis by auto
qed

lemma step_run:
  assumes "step (EvRun now) pg = Some pg'"
  shows "pg' = pg \<or> (bufR pg' = 0 \<and> bufW pg' = 0)"
    and "buf pg' = buf pg \<and> generated pg' = generated pg \<and>
         bufSize pg' = bufSize pg \<and> bufMask pg' = bufMask pg"
  using assms by (auto simp: Run_def split: if_splits)

lemma step_producer:
  assumes "step EvGen pg = Some pg'" "cursors_ok pg"
  shows "(pg' = pg \<or>
          bufW pg - bufR pg < unat (bufSize pg) \<and> slot pg (bufW pg) < length (buf pg) \<and>
          bufW pg' = bufW pg + 1 \<and> generated pg' = generated pg + 1 \<and>
          (\<exists>w. decode pg = Some w \<and> buf pg' = (buf pg)[slot pg (bufW pg) := w])) \<and>
         bufR pg' = bufR pg \<and> bufSize pg' = bufSize pg \<and> bufMask pg' = bufMask pg"
proof -
  from assms(1) obtain r where "runGenerator_iter pg = Ret r pg'" by (auto simp: after_Some)
  from runGenerator_iter_cases [OF this] show ?thesis
    using not_full_iff [OF assms(2)] by auto
qed

lemma step_generated:
  assumes "step ev pg = Some pg'"
  shows "generated pg' = generated pg + (if ev = EvGen then bufW pg' - bufW pg else 0)"
proof (cases "ev = EvGen")
  case True
  with assms obtain r where "runGenerator_iter pg = Ret r pg'" by (auto simp: after_Some)
  from runGenerator_iter_cases [OF this] True show ?thesis by auto
next
  case False
  show ?thesis
  proof (cases "is_run ev")
    case True
    then obtain now where "ev = EvRun now" by (cases ev) auto
    with assms step_run(2) [of now pg pg'] False show ?thesis by simp
  next
    case nr: False
    from step_consumer [OF assms nr False] False show ?thesis by simp
  qed
qed

lemma step_engine_ok:
  assumes "engine_ok pg" "step ev pg = Some pg'"
  shows "engine_ok pg'"
proof -
  from assms(1) have b: "buffer_ok pg" and c: "cursors_ok pg" by (auto simp: engine_ok_def)
  show ?thesis
  proof (cases "ev = EvGen")
    case True
    from step_producer [OF assms(2) [unfolded True] c] b c show ?thesis
      by (auto simp: engine_ok_def buffer_ok_def cursors_ok_def)
  next
    case False
    show ?thesis
    proof (cases "is_run ev")
      case True
      then obtain now where ev: "ev = EvRun now" by (cases ev) auto
      from step_run [OF assms(2) [unfolded ev]] b c show ?thesis
        by (auto simp: engine_ok_def buffer_ok_def cursors_ok_def)
    next
      case nr: False
      from step_consumer [OF assms(2) nr False] b c show ?thesis
        by (auto simp: engine_ok_def buffer_ok_def cursors_ok_def)
    qed
  qed
qed

lemma exec_engine_ok: "engine_ok pg \<Longrightarrow> exec evs pg = Some pg' \<Longrightarrow> engine_ok pg'"
proof (induction evs arbitrary: pg)
  case Nil
  then show ?case by simp
next
  case (Cons ev evs)
  from Cons.prems(2) obtain pg1 where s: "step ev pg = Some pg1" and e: "exec evs pg1 = Some pg'"
    by (auto split: option.splits)
  from Cons.IH [OF step_engine_ok [OF Cons.prems(1) s] e] show ?case .
qed

lemma NewWordGen_engine_ok:
  assumes "NewWordGen cfg = Inr g"
  shows "engine_ok g"
  using NewWordGen_Inr(6,7,8,9,10) [OF assms] roundToNearestPowerOfTwo_pow2_or_zero
  by (simp add: engine_ok_def buffer_ok_def cursors_ok_def)

lemma exec_generated:
  "exec evs pg = Some pg' \<Longrightarrow> generated pg' = generated pg + written evs pg"
proof (induction evs arbitrary: pg)
  case Nil
  then show ?case by simp
next
  case (Cons ev evs)
  from Cons.prems obtain pg1 where s: "step ev pg = Some pg1" and e: "exec evs pg1 = Some pg'"
    by (auto split: option.splits)
  from Cons.IH [OF e] step_generated [OF s] s show ?case by simp
qed

subsection \<open>Invariants of the cursors\<close>

lemma exec_test_trace: "exec test_trace test_engine = Some test_stopped"
  by code_simp

lemma reachable_engine_ok:
  assumes "NewWordGen cfg = Inr g" "exec evs g = Some pg"
  shows "engine_ok pg"
  using exec_engine_ok [OF NewWordGen_engine_ok [OF assms(1)] assms(2)] .

text \<open>
  C6: in every state that a trace of atomic sections reaches from a constructed engine,
  \<open>Rd \<le> W \<le> Rd + capacity\<close>; no section other than \<^verbatim>\<open>Run\<close> decreases a cursor; the producer
  changes the buffer or \<open>W\<close> only when \<open>W - Rd < capacity\<close>, it writes the slot of \<open>W\<close> only
  and leaves the slot of every unread cursor as it is; no other section changes the
  buffer; and a section that advances \<open>Rd\<close> does so only when \<open>Rd < W\<close> and never past \<open>W\<close>.
\<close>

theorem cursor_invariants:
  assumes "NewWordGen cfg = Inr g" "exec evs g = Some pg"
  shows "bufR pg \<le> bufW pg \<and> bufW pg \<le> bufR pg + unat (bufSize pg) \<and>
     (\<forall>ev pg'. step ev pg = Some pg' \<and> \<not> is_run ev \<longrightarrow>
        bufR pg \<le> bufR pg' \<and> bufW pg \<le> bufW pg') \<and>
     (\<forall>pg'. step EvGen pg = Some pg' \<and> (bufW pg' \<noteq> bufW pg \<or> buf pg' \<noteq> buf pg) \<longrightarrow>
        bufW pg - bufR pg < unat (bufSize pg) \<and> bufW pg' = bufW pg + 1 \<and>
        (\<exists>w. buf pg' = (buf pg)[slot pg (bufW pg) := w]) \<and>
        (\<forall>c. bufR pg \<le> c \<and> c < bufW pg \<longrightarrow> buf pg' ! slot pg c = buf pg ! slot pg c)) \<and>
     (\<forall>ev pg'. step ev pg = Some pg' \<and> ev \<noteq> EvGen \<longrightarrow> buf pg' = buf pg) \<and>
     (\<forall>ev pg'. step ev pg = Some pg' \<and> \<not> is_run ev \<and> bufR pg' \<noteq> bufR pg \<longrightarrow>
        bufR pg < bufW pg \<and> bufR pg' \<le> bufW pg)"
proof -
  have ok: "engine_ok pg" using assms by (rule reachable_engine_ok)
  then have b: "buffer_ok pg" and c: "cursors_ok pg" by (auto simp: engine_ok_def)
  have p1: "bufR pg \<le> bufW pg \<and> bufW pg \<le> bufR pg + unat (bufSize pg)"
    using c by (simp add: cursors_ok_def)
  have p2: "bufR pg \<le> bufR pg' \<and> bufW pg \<le> bufW pg'"
    if "step ev pg = Some pg'" "\<not> is_run ev" for ev pg'
  proof (cases "ev = EvGen")
    case True
    from step_producer [OF that(1) [unfolded True] c] show ?thesis by auto
  next
    case False
    from step_consumer [OF that False] show ?thesis by auto
  qed
  have p3: "bufW pg - bufR pg < unat (bufSize pg) \<and> bufW pg' = bufW pg + 1 \<and>
        (\<exists>w. buf pg' = (buf pg)[slot pg (bufW pg) := w]) \<and>
        (\<forall>c. bufR pg \<le> c \<and> c < bufW pg \<longrightarrow> buf pg' ! slot pg c = buf pg ! slot pg c)"
    if s: "step EvGen pg = Some pg'" and d: "bufW pg' \<noteq> bufW pg \<or> buf pg' \<noteq> buf pg" for pg'
  proof -
    from step_producer [OF s c] d obtain w where
      w: "bufW pg - bufR pg < unat (bufSize pg)" "bufW pg' = bufW pg + 1"
         "buf pg' = (buf pg)[slot pg (bufW pg) := w]"
      by auto
    have nz: "bufSize pg \<noteq> 0" using w(1) by (auto simp: unat_eq_zero)
    have "buf pg' ! slot pg c = buf pg ! slot pg c" if "bufR pg \<le> c" "c < bufW pg" for c
    proof -
      have "bufW pg - c < unat (bufSize pg)" using that w(1) by linarith
      from slot_distinct [OF b nz that(2) this] show ?thesis
        unfolding w(3) by (simp add: nth_list_update_neq)
    qed
    then show ?thesis using w by blast
  qed
  have p4: "buf pg' = buf pg" if "step ev pg = Some pg'" "ev \<noteq> EvGen" for ev pg'
  proof (cases "is_run ev")
    case True
    then obtain now where "ev = EvRun now" by (cases ev) auto
    with step_run(2) [of now pg pg'] that(1) show ?thesis by simp
  next
    case False
    from step_consumer [OF that(1) False that(2)] show ?thesis by simp
  qed
  have p5: "bufR pg < bufW pg \<and> bufR pg' \<le> bufW pg"
    if "step ev pg = Some pg'" "\<not> is_run ev" "bufR pg' \<noteq> bufR pg" for ev pg'
  proof (cases "ev = EvGen")
    case True
    from step_producer [OF that(1) [unfolded True] c] that(3) show ?thesis by auto
  next
    case False
    from step_consumer [OF that(1,2) False] that(3) show ?thesis by auto
  qed
  show ?thesis using p1 p2 p3 p4 p5 by blast
qed

theorem cursor_invariants_witness:
  "NewWordGen test_config = Inr test_engine \<and> exec test_trace test_engine = Some test_stopped \<and>
   bufR test_stopped = 1 \<and> bufW test_stopped = 2 \<and> unat (bufSize test_stopped) = 8 \<and>
   bufR test_stopped \<le> bufW test_stopped \<and>
   bufW test_stopped \<le> bufR test_stopped + unat (bufSize test_stopped)"
proof -
  have v: "bufR test_stopped = 1" "bufW test_stopped = 2" "unat (bufSize test_stopped) = 8"
    by (simp_all add: test_stopped_def test_engine_def)
  from cursor_invariants [OF NewWordGen_test_config exec_test_trace]
  have "bufR test_stopped \<le> bufW test_stopped \<and>
        bufW test_stopped \<le> bufR test_stopped + unat (bufSize test_stopped)"
    by blast
  then show ?thesis using NewWordGen_test_config exec_test_trace v by (intro conjI) simp_all
qed

text \<open>
  C7: in every state that a trace reaches from a constructed engine, if the occupancy
  \<open>W - Rd\<close> is positive then \<^verbatim>\<open>Next\<close> returns the word stored at slot \<open>Rd AND (capacity - 1)\<close>,
  which exists, and increments \<open>Rd\<close> by one; if the occupancy is 0 and \<^verbatim>\<open>running\<close> is
  cleared then \<^verbatim>\<open>Next\<close> returns \<^verbatim>\<open>io.EOF\<close> and leaves the engine as it is.
\<close>

theorem next_pops_or_ends:
  assumes "NewWordGen cfg = Inr g" "exec evs g = Some pg"
  shows "(bufW pg - bufR pg > 0 \<longrightarrow>
            unat ((word_of_nat (bufR pg) :: 64 word) AND (bufSize pg - 1)) < length (buf pg) \<and>
            Next pg =
              Ret (Word (buf pg ! unat ((word_of_nat (bufR pg) :: 64 word) AND (bufSize pg - 1))))
                  (pg\<lparr>bufR := bufR pg + 1\<rparr>)) \<and>
         (bufW pg - bufR pg = 0 \<and> \<not> running pg \<longrightarrow> Next pg = Ret (NextErr EOF) pg)"
proof -
  have ok: "engine_ok pg" using assms by (rule reachable_engine_ok)
  then have b: "buffer_ok pg" and c: "cursors_ok pg" by (auto simp: engine_ok_def)
  have m: "bufMask pg = bufSize pg - 1" using b by (simp add: buffer_ok_def)
  have s: "slot pg (bufR pg) = unat ((word_of_nat (bufR pg) :: 64 word) AND (bufSize pg - 1))"
    by (simp add: slot_def m)
  have p1: "slot pg (bufR pg) < length (buf pg) \<and>
      Next pg = Ret (Word (buf pg ! slot pg (bufR pg))) (pg\<lparr>bufR := bufR pg + 1\<rparr>)"
    if "bufW pg - bufR pg > 0"
  proof -
    have lt: "bufR pg < bufW pg" using that by simp
    have "bufSize pg \<noteq> 0"
    proof
      assume "bufSize pg = 0"
      with c lt show False by (simp add: cursors_ok_def)
    qed
    from slot_in_range [OF b this, of "bufR pg"] lt show ?thesis
      by (simp add: Next_def pop_def Let_def)
  qed
  have p2: "Next pg = Ret (NextErr EOF) pg" if "bufW pg - bufR pg = 0 \<and> \<not> running pg"
    using that by (simp add: Next_def)
  show ?thesis using p1 p2 unfolding s by blast
qed

lemma exec_test_emptied: "exec (test_trace @ [EvNext]) test_engine = Some test_emptied"
  by code_simp

theorem next_pops_or_ends_witness:
  "NewWordGen test_config = Inr test_engine \<and> exec test_trace test_engine = Some test_stopped \<and>
   bufW test_stopped - bufR test_stopped > 0 \<and>
   Next test_stopped = Ret (Word ''b'') test_emptied \<and>
   exec (test_trace @ [EvNext]) test_engine = Some test_emptied \<and>
   bufW test_emptied - bufR test_emptied = 0 \<and> running test_emptied = False \<and>
   Next test_emptied = Ret (NextErr EOF) test_emptied"
proof -
  have o: "bufW test_stopped - bufR test_stopped > 0"
    by (simp add: test_stopped_def test_engine_def)
  from next_pops_or_ends [OF NewWordGen_test_config exec_test_trace] o
  have "Next test_stopped =
      Ret (Word (buf test_stopped !
                 unat ((word_of_nat (bufR test_stopped) :: 64 word) AND (bufSize test_stopped - 1))))
          (test_stopped\<lparr>bufR := bufR test_stopped + 1\<rparr>)"
    by blast
  also have "\<dots> = Ret (Word ''b'') test_emptied"
    by (simp add: test_emptied_def test_stopped_def test_engine_def)
  finally have a: "Next test_stopped = Ret (Word ''b'') test_emptied" .
  have e: "bufW test_emptied - bufR test_emptied = 0" "running test_emptied = False"
    by (simp_all add: test_emptied_def test_stopped_def test_engine_def)
  from next_pops_or_ends [OF NewWordGen_test_config exec_test_emptied] e
  have b: "Next test_emptied = Ret (NextErr EOF) test_emptied" by simp
  show ?thesis
    using NewWordGen_test_config exec_test_trace o a exec_test_emptied e b
    by (intro conjI) assumption+
qed

text \<open>
  C9: on an engine that a trace has reached and that is not running, \<^verbatim>\<open>Run\<close> succeeds and
  resets the counter state to the initial state, both cursors to 0, the start time to
  now and the end time to zero, and it keeps \<^verbatim>\<open>generated\<close>: this field, which \<^verbatim>\<open>Stats\<close>
  reports, is the number of words written along the whole trace, over all its runs.
\<close>

theorem restart_keeps_generated:
  assumes "NewWordGen cfg = Inr g" "exec evs g = Some pg" "\<not> running pg"
  shows "\<exists>pg'. Run now pg = Inr pg' \<and>
           state pg' = initialState pg \<and> stateLen pg' = length (initialState pg) \<and>
           bufR pg' = 0 \<and> bufW pg' = 0 \<and> startTime pg' = Some now \<and> endTime pg' = None \<and>
           generated pg' = generated pg \<and> generated pg = written evs g \<and>
           (\<forall>t. fst (Stats t pg') = written evs g)"
proof -
  have g0: "generated g = 0" using NewWordGen_Inr(11) [OF assms(1)] .
  have w: "generated pg = written evs g" using exec_generated [OF assms(2)] g0 by simp
  show ?thesis using assms(3) w by (simp add: Run_def Stats_def)
qed

lemma exec_test_restart: "exec (test_trace @ [EvRun 3]) test_engine = Some test_restarted"
  by code_simp

theorem restart_keeps_generated_witness:
  "NewWordGen test_config = Inr test_engine \<and> exec test_trace test_engine = Some test_stopped \<and>
   running test_stopped = False \<and> Run 3 test_stopped = Inr test_restarted \<and>
   bufW test_stopped = 2 \<and> bufW test_restarted = 0 \<and> bufR test_restarted = 0 \<and>
   generated test_restarted = 2 \<and> written test_trace test_engine = 2 \<and>
   Stats 5 test_restarted = (2, 2)"
proof -
  have r: "\<not> running test_stopped" by (simp add: test_stopped_def test_engine_def)
  have run: "Run 3 test_stopped = Inr test_restarted"
    by (simp add: Run_def test_restarted_def test_stopped_def test_engine_def)
  from restart_keeps_generated [OF NewWordGen_test_config exec_test_trace r, of 3] run
  have "generated test_restarted = written test_trace test_engine" by auto
  moreover have "generated test_restarted = 2" "bufW test_stopped = 2" "bufW test_restarted = 0"
    "bufR test_restarted = 0" "Stats 5 test_restarted = (2, 2)"
    by (simp_all add: test_restarted_def test_stopped_def test_engine_def Stats_def)
  ultimately show ?thesis using NewWordGen_test_config exec_test_trace r run
    by (intro conjI) simp_all
qed

subsection \<open>Delivery through the buffer\<close>

lemma slot_cong: "bufMask pg' = bufMask pg \<Longrightarrow> slot pg' c = slot pg c"
  by (simp add: slot_def)

lemma engine_ok_nonempty:
  assumes "engine_ok pg" "bufR pg < bufW pg"
  shows "bufSize pg \<noteq> 0"
proof
  assume "bufSize pg = 0"
  with assms show False by (simp add: engine_ok_def cursors_ok_def)
qed

lemma pending_pop:
  assumes "bufR pg < bufW pg" "buf pg' = buf pg" "bufMask pg' = bufMask pg"
    "bufR pg' = bufR pg + 1" "bufW pg' = bufW pg"
  shows "pending pg = buf pg ! slot pg (bufR pg) # pending pg'"
proof -
  have "[bufR pg..<bufW pg] = bufR pg # [bufR pg + 1..<bufW pg]"
    using assms(1) by (simp add: upt_conv_Cons)
  then show ?thesis
    unfolding pending_def assms(2,4,5) using slot_cong [OF assms(3)] by simp
qed

lemma pending_write:
  assumes "engine_ok pg" "bufW pg - bufR pg < unat (bufSize pg)"
    "buf pg' = (buf pg)[slot pg (bufW pg) := w]" "bufMask pg' = bufMask pg"
    "bufR pg' = bufR pg" "bufW pg' = bufW pg + 1"
  shows "pending pg' = pending pg @ [w]"
proof -
  from assms(1) have b: "buffer_ok pg" and c: "cursors_ok pg" by (auto simp: engine_ok_def)
  have nz: "bufSize pg \<noteq> 0" using assms(2) by (auto simp: unat_eq_zero)
  have le: "bufR pg \<le> bufW pg" using c by (simp add: cursors_ok_def)
  have old: "buf pg' ! slot pg c = buf pg ! slot pg c" if "c \<in> set [bufR pg..<bufW pg]" for c
  proof -
    from that have r: "bufR pg \<le> c" "c < bufW pg" by auto
    then have "bufW pg - c < unat (bufSize pg)" using assms(2) by linarith
    from slot_distinct [OF b nz r(2) this] show ?thesis
      unfolding assms(3) by (simp add: nth_list_update_neq)
  qed
  have new: "buf pg' ! slot pg (bufW pg) = w"
    unfolding assms(3) using slot_in_range [OF b nz, of "bufW pg"] by simp
  have "[bufR pg..<bufW pg + 1] = [bufR pg..<bufW pg] @ [bufW pg]" using le by simp
  then have "pending pg' = map (\<lambda>c. buf pg' ! slot pg c) [bufR pg..<bufW pg] @ [w]"
    unfolding pending_def assms(5,6) using slot_cong [OF assms(4)] new by simp
  also have "map (\<lambda>c. buf pg' ! slot pg c) [bufR pg..<bufW pg] = pending pg"
    unfolding pending_def using old by (intro map_cong) simp_all
  finally show ?thesis .
qed

lemma engine_ok_pop:
  assumes "engine_ok pg" "bufR pg < bufW pg"
  shows "engine_ok (pg\<lparr>bufR := bufR pg + 1\<rparr>)"
  using assms by (auto simp: engine_ok_def buffer_ok_def cursors_ok_def)

lemma Next_pop:
  assumes "engine_ok pg" "bufR pg < bufW pg"
  shows "Next pg = Ret (Word (buf pg ! slot pg (bufR pg))) (pg\<lparr>bufR := bufR pg + 1\<rparr>)"
proof -
  from assms(1) have b: "buffer_ok pg" by (simp add: engine_ok_def)
  from slot_in_range [OF b engine_ok_nonempty [OF assms], of "bufR pg"] assms(2)
  show ?thesis by (simp add: Next_def pop_def Let_def)
qed

lemma drain_pending:
  assumes "engine_ok pg" "\<not> running pg"
  shows "drain pg acc = Some (acc @ pending pg, pg\<lparr>bufR := bufW pg\<rparr>)"
  using assms
proof (induction "bufW pg - bufR pg" arbitrary: pg acc)
  case 0
  then have "bufR pg = bufW pg" by (simp add: engine_ok_def cursors_ok_def)
  then show ?case using 0(3)
    by (subst drain.simps) (simp add: Next_def pending_def)
next
  case (Suc k)
  then have lt: "bufR pg < bufW pg" by simp
  let ?pg' = "pg\<lparr>bufR := bufR pg + 1\<rparr>"
  have ok': "engine_ok ?pg'" using Suc.prems(1) lt by (rule engine_ok_pop)
  have k: "k = bufW ?pg' - bufR ?pg'" using Suc.hyps(2) by simp
  have IH: "drain ?pg' (acc @ [buf pg ! slot pg (bufR pg)]) =
      Some ((acc @ [buf pg ! slot pg (bufR pg)]) @ pending ?pg', ?pg'\<lparr>bufR := bufW ?pg'\<rparr>)"
    using Suc.hyps(1) [OF k ok'] Suc.prems(2) by simp
  have p: "pending pg = buf pg ! slot pg (bufR pg) # pending ?pg'"
    by (rule pending_pop [OF lt]) simp_all
  have step: "drain pg acc = drain ?pg' (acc @ [buf pg ! slot pg (bufR pg)])"
    by (subst drain.simps) (simp add: Next_pop [OF Suc.prems(1) lt])
  show ?case unfolding step IH p by simp
qed

lemma runGenerator_iter_sleep:
  "running pg \<Longrightarrow> occupancy pg \<ge> bufSize pg \<Longrightarrow> runGenerator_iter pg = Ret GenSleep pg"
  by (simp add: runGenerator_iter_def)

lemma runGenerator_iter_write:
  assumes "running pg" "\<not> occupancy pg \<ge> bufSize pg" "slot pg (bufW pg) < length (buf pg)"
    "decode pg = Some w"
  shows "runGenerator_iter pg =
     (case nextState (pg\<lparr>buf := (buf pg)[slot pg (bufW pg) := w], bufW := bufW pg + 1,
                          generated := generated pg + 1\<rparr>) of
        Panic \<Rightarrow> Panic
      | Ret (Some e) pg' \<Rightarrow> Ret (GenReturn (if e = EOF then None else Some e)) pg'
      | Ret None pg' \<Rightarrow> Ret GenContinue pg')"
  using assms by (simp add: runGenerator_iter_def Let_def)

lemma engine_ok_write:
  assumes "engine_ok pg" "bufW pg - bufR pg < unat (bufSize pg)"
    "length (buf pg') = length (buf pg)" "bufSize pg' = bufSize pg" "bufMask pg' = bufMask pg"
    "bufR pg' = bufR pg" "bufW pg' = bufW pg + 1"
  shows "engine_ok pg'"
  using assms by (auto simp: engine_ok_def buffer_ok_def cursors_ok_def)

lemma session_digits:
  assumes "charsetLen pg = R" "length (charset pg) = R" "0 < R" "MaxLen (config pg) = M"
    "state pg = digits R L n" "stateLen pg = L" "L \<le> M" "n < R ^ L"
    "engine_ok pg" "bufSize pg \<noteq> 0" "running pg"
  shows "\<exists>final. session now pg acc =
           Some (acc @ pending pg @
                 map (word_of (charset pg))
                   (map (digits R L) [n..<R ^ L] @ concat (map (odometer R) [Suc L..<Suc M])),
                 final) \<and>
           \<not> running final \<and> bufR final = bufW final \<and> endTime final = Some now \<and>
           generated final = generated pg +
             length (map (digits R L) [n..<R ^ L] @ concat (map (odometer R) [Suc L..<Suc M]))"
  using assms
proof (induction "2 * ((\<Sum>l = L..M. R ^ l) - n) + (bufW pg - bufR pg)"
         arbitrary: L n pg acc rule: less_induct)
  case less
  note IH = less.hyps and f = less.prems
  have ok: "counter_ok pg" using counter_ok_digits [of pg R L n] f by simp
  have b: "buffer_ok pg" and c: "cursors_ok pg" using f(9) by (auto simp: engine_ok_def)
  have le: "bufR pg \<le> bufW pg" "bufW pg \<le> bufR pg + unat (bufSize pg)"
    using c by (auto simp: cursors_ok_def)
  have sum: "(\<Sum>l = L..M. R ^ l) = R ^ L + (\<Sum>l = Suc L..M. R ^ l)"
    using f(7) by (simp add: sum.atLeast_Suc_atMost)
  let ?rest = "map (digits R L) [n..<R ^ L] @ concat (map (odometer R) [Suc L..<Suc M])"
  show ?case
  proof (cases "occupancy pg \<ge> bufSize pg")
    case True
    then have full: "\<not> bufW pg - bufR pg < unat (bufSize pg)"
      using not_full_iff [OF c] by simp
    have "0 < unat (bufSize pg)" using f(10) by (simp add: unat_gt_0)
    with full have lt: "bufR pg < bufW pg" by linarith
    let ?w = "buf pg ! slot pg (bufR pg)"
    let ?pg' = "pg\<lparr>bufR := bufR pg + 1\<rparr>"
    have step: "session now pg acc = session now ?pg' (acc @ [?w])"
      by (subst session.simps)
         (simp add: runGenerator_iter_sleep [OF f(11) True] Next_pop [OF f(9) lt])
    have "\<exists>final. session now ?pg' (acc @ [?w]) =
           Some ((acc @ [?w]) @ pending ?pg' @ map (word_of (charset ?pg')) ?rest, final) \<and>
           \<not> running final \<and> bufR final = bufW final \<and> endTime final = Some now \<and>
           generated final = generated ?pg' + length ?rest"
      by (rule IH) (use f lt engine_ok_pop [OF f(9) lt] in simp_all)
    moreover have "pending pg = ?w # pending ?pg'"
      by (rule pending_pop [OF lt]) simp_all
    ultimately show ?thesis unfolding step by simp
  next
    case False
    then have room: "bufW pg - bufR pg < unat (bufSize pg)"
      using not_full_iff [OF c] by simp
    let ?w = "word_of (charset pg) (digits R L n)"
    let ?pg1 = "pg\<lparr>buf := (buf pg)[slot pg (bufW pg) := ?w], bufW := bufW pg + 1,
                     generated := generated pg + 1\<rparr>"
    have sl: "slot pg (bufW pg) < length (buf pg)" using slot_in_range [OF b f(10)] .
    have dec: "decode pg = Some ?w" using decode_word_of [OF ok] f(5) by simp
    note it = runGenerator_iter_write [OF f(11) False sl dec]
    have ns: "nextState ?pg1 =
       (if Suc n < R ^ L then Ret None (?pg1\<lparr>state := digits R L (Suc n)\<rparr>)
        else if L = M then Ret (Some EOF) (?pg1\<lparr>state := replicate L 0, stateLen := Suc L\<rparr>)
        else Ret None (?pg1\<lparr>state := digits R (Suc L) 0, stateLen := Suc L\<rparr>))"
      using nextState_digits [of ?pg1 R L n] f by simp
    have nl: "[n..<R ^ L] = n # [Suc n..<R ^ L]" using f(8) by (simp add: upt_conv_Cons)
    show ?thesis
    proof (cases "Suc n < R ^ L")
      case True
      let ?pg2 = "?pg1\<lparr>state := digits R L (Suc n)\<rparr>"
      let ?rest' = "map (digits R L) [Suc n..<R ^ L] @ concat (map (odometer R) [Suc L..<Suc M])"
      have it': "runGenerator_iter pg = Ret GenContinue ?pg2"
        unfolding it ns using True by simp
      have step: "session now pg acc = session now ?pg2 acc"
        by (subst session.simps) (simp add: it')
      have ok2: "engine_ok ?pg2" by (rule engine_ok_write [OF f(9) room]) simp_all
      have "\<exists>final. session now ?pg2 acc =
           Some (acc @ pending ?pg2 @ map (word_of (charset ?pg2)) ?rest', final) \<and>
           \<not> running final \<and> bufR final = bufW final \<and> endTime final = Some now \<and>
           generated final = generated ?pg2 + length ?rest'"
      proof (rule IH)
        show "2 * ((\<Sum>l = L..M. R ^ l) - Suc n) + (bufW ?pg2 - bufR ?pg2)
                < 2 * ((\<Sum>l = L..M. R ^ l) - n) + (bufW pg - bufR pg)"
          using True sum le(1) by simp
      qed (use f True ok2 in simp_all)
      moreover have "pending ?pg2 = pending pg @ [?w]"
        by (rule pending_write [OF f(9) room]) simp_all
      ultimately show ?thesis unfolding step nl by simp
    next
      case last: False
      then have ln: "[n..<R ^ L] = [n]" using f(8) by (simp add: upt_conv_Cons)
      show ?thesis
      proof (cases "L = M")
        case True
        let ?pg2 = "?pg1\<lparr>state := replicate L 0, stateLen := Suc L\<rparr>"
        let ?pg3 = "generator_exit now ?pg2"
        have it': "runGenerator_iter pg = Ret (GenReturn None) ?pg2"
          unfolding it ns using last True by simp
        have step: "session now pg acc = drain ?pg3 acc"
          by (subst session.simps) (simp add: it')
        have ok2: "engine_ok ?pg2" by (rule engine_ok_write [OF f(9) room]) simp_all
        then have ok3: "engine_ok ?pg3"
          by (simp add: generator_exit_def engine_ok_def buffer_ok_def cursors_ok_def)
        have nr: "\<not> running ?pg3" by (simp add: generator_exit_def)
        have "pending ?pg3 = pending pg @ [?w]"
          by (rule pending_write [OF f(9) room]) (simp_all add: generator_exit_def)
        then show ?thesis
          unfolding step drain_pending [OF ok3 nr] ln using True
          by (simp add: generator_exit_def)
      next
        case LM: False
        let ?pg2 = "?pg1\<lparr>state := digits R (Suc L) 0, stateLen := Suc L\<rparr>"
        let ?rest' = "map (digits R (Suc L)) [0..<R ^ Suc L] @
                      concat (map (odometer R) [Suc (Suc L)..<Suc M])"
        have it': "runGenerator_iter pg = Ret GenContinue ?pg2"
          unfolding it ns using last LM by simp
        have step: "session now pg acc = session now ?pg2 acc"
          by (subst session.simps) (simp add: it')
        have ok2: "engine_ok ?pg2" by (rule engine_ok_write [OF f(9) room]) simp_all
        have pos: "0 < R ^ Suc L" using f(3) by simp
        have "\<exists>final. session now ?pg2 acc =
             Some (acc @ pending ?pg2 @ map (word_of (charset ?pg2)) ?rest', final) \<and>
             \<not> running final \<and> bufR final = bufW final \<and> endTime final = Some now \<and>
             generated final = generated ?pg2 + length ?rest'"
        proof (rule IH)
          have "(\<Sum>l = Suc L..M. R ^ l) < (\<Sum>l = L..M. R ^ l) - n"
            unfolding sum using f(8) by simp
          then show "2 * ((\<Sum>l = Suc L..M. R ^ l) - 0) + (bufW ?pg2 - bufR ?pg2)
                < 2 * ((\<Sum>l = L..M. R ^ l) - n) + (bufW pg - bufR pg)"
            using le(1) by simp
        qed (use f LM ok2 pos in simp_all)
        moreover have "pending ?pg2 = pending pg @ [?w]"
          by (rule pending_write [OF f(9) room]) simp_all
        moreover have "[Suc L..<Suc M] = Suc L # [Suc (Suc L)..<Suc M]"
          using f(7) LM by (simp add: upt_conv_Cons)
        ultimately show ?thesis unfolding step ln by (simp add: odometer_def)
      qed
    qed
  qed
qed

subsection \<open>Full runs of the engine\<close>

lemma step_static:
  assumes "step ev pg = Some pg'"
  shows "config pg' = config pg \<and> charset pg' = charset pg \<and> charsetLen pg' = charsetLen pg \<and>
         initialState pg' = initialState pg \<and> bufSize pg' = bufSize pg"
proof (cases ev)
  case (EvRun now)
  with assms show ?thesis by (auto simp: Run_def split: if_splits)
next
  case EvStop
  with assms show ?thesis by (auto simp: Stop_def)
next
  case EvGen
  with assms obtain r where "runGenerator_iter pg = Ret r pg'" by (auto simp: after_Some)
  from runGenerator_iter_cases [OF this] show ?thesis by auto
next
  case (EvGenExit now)
  with assms show ?thesis by (auto simp: generator_exit_def)
next
  case EvNext
  with assms obtain r where "Next pg = Ret r pg'" by (auto simp: after_Some)
  from Next_cases [OF this] show ?thesis by auto
next
  case EvNextWake
  with assms obtain r where "Next_wake pg = Ret r pg'" by (auto simp: after_Some)
  from Next_wake_cases [OF this] show ?thesis by auto
next
  case (EvBatch words)
  with assms obtain r where "Batch words pg = Ret r pg'" by (auto simp: after_Some)
  from Batch_cases [OF this] show ?thesis by auto
next
  case (EvBatchWake i count words)
  with assms obtain r where "Batch_wake i count words pg = Ret r pg'"
    by (auto simp: after_Some)
  from Batch_wake_cases [OF this] show ?thesis by auto
qed

lemma exec_static:
  "exec evs pg = Some pg' \<Longrightarrow>
     config pg' = config pg \<and> charset pg' = charset pg \<and> charsetLen pg' = charsetLen pg \<and>
     initialState pg' = initialState pg \<and> bufSize pg' = bufSize pg"
proof (induction evs arbitrary: pg)
  case Nil
  then show ?case by simp
next
  case (Cons ev evs)
  from Cons.prems obtain pg1 where s: "step ev pg = Some pg1" and e: "exec evs pg1 = Some pg'"
    by (auto split: option.splits)
  from Cons.IH [OF e] step_static [OF s] show ?case by simp
qed

text \<open>
  A run started on an engine that a trace has reached, from the initial state with the
  digits of \<open>n\<close>: what the producer writes and, when the buffer has a slot, what a consumer
  gets.
\<close>

lemma run_from_digits:
  assumes "NewWordGen cfg = Inr g" "exec evs g = Some s" "Run now s = Inr pg"
    "R = length (Charset (applyDefaults cfg))" "M = MaxLen (applyDefaults cfg)"
    "initialState g = digits R L n" "L \<le> M" "n < R ^ L"
    "ws = map (word_of (Charset (applyDefaults cfg)))
            (map (digits R L) [n..<R ^ L] @ concat (map (odometer R) [Suc L..<Suc M]))"
  shows "produced pg = Some ws"
    and "bufSize g \<noteq> 0 \<Longrightarrow>
           \<exists>final. session t pg [] = Some (ws, final) \<and> Next final = Ret (NextErr EOF) final \<and>
             generated final = generated s + length ws"
proof -
  define c where "c = applyDefaults cfg"
  note g = NewWordGen_Inr [OF assms(1), folded c_def]
  note st = exec_static [OF assms(2)]
  note pg = Run_Inr [OF assms(3)]
  have R: "0 < R" using applyDefaults_fields(3) [of cfg] by (simp add: assms(4))
  have f: "charsetLen pg = R" "length (charset pg) = R" "MaxLen (config pg) = M"
    "state pg = digits R L n" "stateLen pg = L" "charset pg = Charset c"
    using g(1,2,3) st assms(4,5,6) by (simp_all add: pg clampBuffer_fields c_def)
  show "produced pg = Some ws"
    unfolding assms(9) c_def [symmetric] f(6) [symmetric]
    by (rule produced_digits [OF f(1,2) R f(3,4,5) assms(7,8)])
  show "\<exists>final. session t pg [] = Some (ws, final) \<and> Next final = Ret (NextErr EOF) final \<and>
             generated final = generated s + length ws" if nz: "bufSize g \<noteq> 0"
  proof -
    have ok: "engine_ok pg"
      using reachable_engine_ok [OF assms(1,2)]
      by (simp add: pg engine_ok_def buffer_ok_def cursors_ok_def)
    have nz': "bufSize pg \<noteq> 0" using nz st by (simp add: pg)
    have run: "running pg" by (simp add: pg)
    have pe: "pending pg = []" by (simp add: pg pending_def)
    from session_digits [OF f(1,2) R f(3,4,5) assms(7,8) ok nz' run, of t "[]"]
    obtain final where
      s: "session t pg [] = Some (ws, final)" and
      r: "\<not> running final" "bufR final = bufW final" and
      gen: "generated final = generated pg + length ws"
      unfolding pe assms(9) c_def [symmetric] f(6) by auto
    have "Next final = Ret (NextErr EOF) final" using r by (simp add: Next_def)
    moreover have "generated pg = generated s" by (simp add: pg)
    ultimately show ?thesis using s gen by auto
  qed
qed

text \<open>
  C1: for every configuration that \<^verbatim>\<open>NewWordGen\<close> accepts and that has no initial state, and
  every \<^verbatim>\<open>Run\<close> of its engine (the first one, or a later one on the stopped engine), the
  producer writes exactly the words of all digit sequences of the lengths \<^verbatim>\<open>MinLen\<close> to
  \<^verbatim>\<open>MaxLen\<close>, shorter lengths first and each length in odometer order, and then gets
  \<^verbatim>\<open>io.EOF\<close> from \<^verbatim>\<open>nextState\<close>. Their number is the sum of \<open>R ^ L\<close> over the lengths, the
  words are pairwise distinct, and the digit sequences visited are all sequences of these
  lengths over the \<open>R\<close> symbols. When the buffer has a slot, a consumer gets exactly these
  words, in this order, before \<^verbatim>\<open>Next\<close> returns \<^verbatim>\<open>io.EOF\<close>, and \<^verbatim>\<open>generated\<close> has grown by
  their number.
\<close>

theorem full_run_enumerates:
  assumes "NewWordGen cfg = Inr g" "InitialState cfg = []"
    "exec evs g = Some s" "Run now s = Inr pg"
  shows "\<exists>ws. produced pg = Some ws \<and>
           ws = map (word_of (Charset (applyDefaults cfg)))
                  (enumeration (length (Charset (applyDefaults cfg)))
                     (MinLen (applyDefaults cfg)) (MaxLen (applyDefaults cfg))) \<and>
           length ws = (\<Sum>L = MinLen (applyDefaults cfg)..MaxLen (applyDefaults cfg).
                          length (Charset (applyDefaults cfg)) ^ L) \<and>
           distinct ws \<and>
           set (enumeration (length (Charset (applyDefaults cfg)))
                  (MinLen (applyDefaults cfg)) (MaxLen (applyDefaults cfg))) =
             {ds. MinLen (applyDefaults cfg) \<le> length ds \<and>
                  length ds \<le> MaxLen (applyDefaults cfg) \<and>
                  (\<forall>d \<in> set ds. d < length (Charset (applyDefaults cfg)))} \<and>
           (bufSize g \<noteq> 0 \<longrightarrow>
              (\<forall>t. \<exists>final. session t pg [] = Some (ws, final) \<and>
                     Next final = Ret (NextErr EOF) final \<and>
                     generated final = generated s + length ws))"
proof -
  define c where "c = applyDefaults cfg"
  define R where "R = length (Charset c)"
  define ws where "ws = map (word_of (Charset c)) (enumeration R (MinLen c) (MaxLen c))"
  note g = NewWordGen_Inr [OF assms(1), folded c_def]
  have R: "0 < R" using applyDefaults_fields(3) [of cfg] by (simp add: c_def R_def)
  have i: "initialState g = digits R (MinLen c) 0"
    using g(15) [OF assms(2)] by (simp add: digits_zero [OF R])
  have e: "enumeration R (MinLen c) (MaxLen c) =
           map (digits R (MinLen c)) [0..<R ^ MinLen c] @
             concat (map (odometer R) [Suc (MinLen c)..<Suc (MaxLen c)])"
    using g(5) by (simp add: enumeration_def odometer_def upt_conv_Cons del: upt_Suc)
  have w: "ws = map (word_of (Charset c))
            (map (digits R (MinLen c)) [0..<R ^ MinLen c] @
             concat (map (odometer R) [Suc (MinLen c)..<Suc (MaxLen c)]))"
    unfolding ws_def e ..
  have pos: "0 < R ^ MinLen c" using R by simp
  note run = run_from_digits [OF assms(1,3,4) R_def [unfolded c_def] refl
      i [unfolded c_def] g(5) [unfolded c_def] pos [unfolded c_def] w [unfolded c_def]]
  have l: "length ws = (\<Sum>L = MinLen c..MaxLen c. R ^ L)"
    by (simp add: ws_def length_enumeration)
  have d: "distinct ws"
    unfolding ws_def R_def using g(4) R by (intro distinct_words) (simp_all add: R_def)
  show ?thesis
    using run l d set_enumeration [OF R, of "MinLen c" "MaxLen c"]
    unfolding ws_def c_def R_def by blast
qed

lemma exec_Nil_test_engine: "exec [] test_engine = Some test_engine"
  by simp

theorem full_run_enumerates_witness:
  "NewWordGen test_config = Inr test_engine \<and> InitialState test_config = [] \<and>
   exec [] test_engine = Some test_engine \<and>
   Run 1 test_engine = Inr test_started \<and> bufSize test_engine = 8 \<and>
   produced test_started =
     Some [''a'', ''b'', ''c'', ''aa'', ''ba'', ''ca'', ''ab'', ''bb'', ''cb'', ''ac'', ''bc'', ''cc''] \<and>
   length [''a'', ''b'', ''c'', ''aa'', ''ba'', ''ca'', ''ab'', ''bb'', ''cb'', ''ac'', ''bc'', ''cc'']
     = (\<Sum>L = MinLen (applyDefaults test_config)..MaxLen (applyDefaults test_config).
          length (Charset (applyDefaults test_config)) ^ L) \<and>
   session 2 test_started [] =
     Some ([''a'', ''b'', ''c'', ''aa'', ''ba'', ''ca'', ''ab'', ''bb'', ''cb'', ''ac'', ''bc'', ''cc''],
           test_finished) \<and>
   generated test_finished = 12"
proof -
  have i: "InitialState test_config = []" by (simp add: test_config_def)
  have b: "bufSize test_engine = 8" "generated test_finished = 12"
    by (simp_all add: test_engine_def test_finished_def)
  from full_run_enumerates [OF NewWordGen_test_config i exec_Nil_test_engine Run_test_engine]
  have "length [''a'', ''b'', ''c'', ''aa'', ''ba'', ''ca'', ''ab'', ''bb'', ''cb'', ''ac'', ''bc'', ''cc'']
     = (\<Sum>L = MinLen (applyDefaults test_config)..MaxLen (applyDefaults test_config).
          length (Charset (applyDefaults test_config)) ^ L)"
    using produced_test_started by auto
  then show ?thesis
    using NewWordGen_test_config i exec_Nil_test_engine Run_test_engine produced_test_started
      session_test_started b
    by (intro conjI) assumption+
qed

text \<open>
  C3: for every configuration with an initial state \<open>S\<close> that \<^verbatim>\<open>NewWordGen\<close> accepts, and
  every \<^verbatim>\<open>Run\<close> of its engine, the producer writes \<open>S\<close> first and then exactly the words that
  follow \<open>S\<close> in the run of the same configuration without initial state: that run is
  \<open>pre @ ws\<close>, this one is \<open>ws\<close>, \<open>ws\<close> starts with \<open>S\<close> and \<open>S\<close> does not occur in \<open>pre\<close>. When
  the buffer has a slot, a consumer gets exactly \<open>ws\<close> before \<^verbatim>\<open>Next\<close> returns \<^verbatim>\<open>io.EOF\<close>.
  For the charset \<open>abc\<close>, the lengths 1 to 2 and \<open>S = ba\<close>, the first five words are
  \<open>ba, ca, ab, bb, cb\<close>.
\<close>

theorem initial_state_resumes:
  assumes "NewWordGen cfg = Inr g" "InitialState cfg \<noteq> []"
    "exec evs g = Some s" "Run now s = Inr pg"
  shows "\<exists>g0 pg0 pre ws.
           NewWordGen (cfg\<lparr>InitialState := []\<rparr>) = Inr g0 \<and> Run now g0 = Inr pg0 \<and>
           produced pg0 = Some (pre @ ws) \<and> produced pg = Some ws \<and>
           ws \<noteq> [] \<and> hd ws = InitialState cfg \<and> InitialState cfg \<notin> set pre \<and>
           (bufSize g \<noteq> 0 \<longrightarrow>
              (\<forall>t. \<exists>final. session t pg [] = Some (ws, final) \<and>
                     Next final = Ret (NextErr EOF) final))"
proof -
  define c where "c = applyDefaults cfg"
  define R where "R = length (Charset c)"
  define cfg0 where "cfg0 = cfg\<lparr>InitialState := []\<rparr>"
  note g = NewWordGen_Inr [OF assms(1), folded c_def]
  have c0: "Charset (applyDefaults cfg0) = Charset c" "MinLen (applyDefaults cfg0) = MinLen c"
    "MaxLen (applyDefaults cfg0) = MaxLen c" "InitialState cfg0 = []"
    by (simp_all add: cfg0_def applyDefaults_InitialState_update c_def)
  have R: "0 < R" using applyDefaults_fields(3) [of cfg] by (simp add: c_def R_def)
  have bs0: "BufferSize cfg0 = BufferSize cfg" by (simp add: cfg0_def)
  have "\<not> (\<exists>e. NewWordGen cfg0 = Inl e)"
    unfolding NewWordGen_fails c0 bs0 using g(4,5,17) g(18) [unfolded g(6)] by simp
  then obtain g0 where g0: "NewWordGen cfg0 = Inr g0" by (cases "NewWordGen cfg0") auto
  have "\<not> running g0" using NewWordGen_Inr(12) [OF g0] .
  then obtain pg0 where pg0: "Run now g0 = Inr pg0" using Run_not_running by blast
  from produced_enumeration [OF g0 c0(4) pg0]
  have all: "produced pg0 = Some (map (word_of (Charset c)) (enumeration R (MinLen c) (MaxLen c)))"
    and dist: "distinct (map (word_of (Charset c)) (enumeration R (MinLen c) (MaxLen c)))"
    unfolding c0 R_def by auto
  define L where "L = length (InitialState cfg)"
  from g(16) [OF assms(2)] have i: "length (initialState g) = L"
    "word_of (Charset c) (initialState g) = InitialState cfg"
    "\<forall>d \<in> set (initialState g). d < R" "MinLen c \<le> L" "L \<le> MaxLen c"
    by (simp_all add: L_def R_def)
  from digits_surj [OF i(3)] obtain n where n: "n < R ^ L" "digits R L n = initialState g"
    unfolding i(1) by auto
  define ws where "ws = map (word_of (Charset c))
      (map (digits R L) [n..<R ^ L] @ concat (map (odometer R) [Suc L..<Suc (MaxLen c)]))"
  define pre where "pre = map (word_of (Charset c))
      (concat (map (odometer R) [MinLen c..<L]) @ map (digits R L) [0..<n])"
  note run = run_from_digits [OF assms(1,3,4) R_def [unfolded c_def] refl
      n(2) [symmetric] i(5) [unfolded c_def] n(1) ws_def [unfolded c_def]]
  have split: "map (word_of (Charset c)) (enumeration R (MinLen c) (MaxLen c)) = pre @ ws"
    unfolding pre_def ws_def enumeration_split [OF i(4,5) n(1)] by simp
  have nl: "[n..<R ^ L] = n # [Suc n..<R ^ L]" using n(1) by (simp add: upt_conv_Cons)
  have hd: "ws \<noteq> []" "hd ws = InitialState cfg"
    unfolding ws_def nl using n(2) i(2) by simp_all
  then have "InitialState cfg \<in> set ws" by (metis list.set_sel(1))
  moreover have "distinct (pre @ ws)" using dist unfolding split .
  ultimately have np: "InitialState cfg \<notin> set pre" by auto
  have se: "\<exists>final. session t pg [] = Some (ws, final) \<and> Next final = Ret (NextErr EOF) final"
    if "bufSize g \<noteq> 0" for t
    using run(2) [OF that, of t] by blast
  show ?thesis
    using g0 pg0 all run(1) hd np se unfolding split cfg0_def
    by (intro exI [of _ g0] exI [of _ pg0] exI [of _ pre] exI [of _ ws]) simp
qed

theorem initial_state_resumes_witness:
  "NewWordGen test_config_initial =
     Inr (test_engine\<lparr>config := test_config_initial, initialState := [1, 0]\<rparr>) \<and>
   InitialState test_config_initial = ''ba'' \<and>
   exec [] (test_engine\<lparr>config := test_config_initial, initialState := [1, 0]\<rparr>) =
     Some (test_engine\<lparr>config := test_config_initial, initialState := [1, 0]\<rparr>) \<and>
   Run 1 (test_engine\<lparr>config := test_config_initial, initialState := [1, 0]\<rparr>)
     = Inr test_started_initial \<and>
   produced test_started =
     Some ([''a'', ''b'', ''c'', ''aa''] @
           [''ba'', ''ca'', ''ab'', ''bb'', ''cb'', ''ac'', ''bc'', ''cc'']) \<and>
   produced test_started_initial =
     Some [''ba'', ''ca'', ''ab'', ''bb'', ''cb'', ''ac'', ''bc'', ''cc''] \<and>
   take 5 [''ba'', ''ca'', ''ab'', ''bb'', ''cb'', ''ac'', ''bc'', ''cc'']
     = [''ba'', ''ca'', ''ab'', ''bb'', ''cb'']"
proof -
  have i: "InitialState test_config_initial \<noteq> []"
    by (simp add: test_config_initial_def)
  have s: "InitialState test_config_initial = ''ba''"
    by (simp add: test_config_initial_def)
  have e: "exec [] (test_engine\<lparr>config := test_config_initial, initialState := [1, 0]\<rparr>) =
     Some (test_engine\<lparr>config := test_config_initial, initialState := [1, 0]\<rparr>)"
    by simp
  have p: "produced test_started =
     Some ([''a'', ''b'', ''c'', ''aa''] @
           [''ba'', ''ca'', ''ab'', ''bb'', ''cb'', ''ac'', ''bc'', ''cc''])"
    using produced_test_started by simp
  have t: "take 5 [''ba'', ''ca'', ''ab'', ''bb'', ''cb'', ''ac'', ''bc'', ''cc'']
     = [''ba'', ''ca'', ''ab'', ''bb'', ''cb'']"
    by simp
  from initial_state_resumes [OF NewWordGen_test_config_initial i e Run_test_engine_initial]
  obtain ws where "produced test_started_initial = Some ws" by blast
  then show ?thesis
    using NewWordGen_test_config_initial Run_test_engine_initial p
      produced_test_started_initial s t e
    by (intro conjI) assumption+
qed

subsection \<open>Remarks\<close>

text \<open>
  The order of \<open>odometer\<close> is the order of the increment: the first state is all zeros,
  each state is the increment of the one before, and the increment of the last one
  carries out of the last digit.
\<close>

lemma odometer_nth: "n < R ^ L \<Longrightarrow> odometer R L ! n = digits R L n"
  by (simp add: odometer_def)

lemma odometer_increment:
  assumes "0 < R" "n < R ^ L"
  shows "odometer R L ! 0 = replicate L 0"
    and "Suc n < R ^ L \<Longrightarrow> increment R (odometer R L ! n) = (False, odometer R L ! Suc n)"
    and "Suc n = R ^ L \<Longrightarrow> increment R (odometer R L ! n) = (True, replicate L 0)"
proof -
  have "0 < R ^ L" using assms(1) by simp
  then show "odometer R L ! 0 = replicate L 0"
    by (simp add: odometer_nth digits_zero [OF assms(1)])
  show "increment R (odometer R L ! n) = (False, odometer R L ! Suc n)" if "Suc n < R ^ L"
    using that assms by (simp add: odometer_nth increment_digits)
  show "increment R (odometer R L ! n) = (True, replicate L 0)" if "Suc n = R ^ L"
    using that assms by (simp add: odometer_nth increment_digits)
qed

text \<open>
  \<^verbatim>\<open>Run\<close> allocates the counter with length \<^verbatim>\<open>len(pg.initialState)\<close> and capacity
  \<^verbatim>\<open>pg.config.MaxLen\<close>. In every state that an engine returned by \<^verbatim>\<open>NewWordGen\<close> reaches,
  the capacity is within the allocation limit and the length is at most the capacity.
\<close>

lemma Run_make_within_limit:
  assumes "NewWordGen cfg = Inr g" "exec evs g = Some pg"
  shows "\<not> makeslice_panics 8 (MaxLen (config pg)) \<and>
         length (initialState pg) \<le> MaxLen (config pg)"
proof -
  note g = NewWordGen_Inr [OF assms(1)]
  from exec_static [OF assms(2)]
  have s: "config pg = config g" "initialState pg = initialState g" by simp_all
  have m: "MaxLen (config g) = MaxLen (applyDefaults cfg)"
    using g(1) by (simp add: clampBuffer_fields)
  have "length (initialState g) \<le> MaxLen (applyDefaults cfg)"
  proof (cases "InitialState cfg = []")
    case True
    from g(15) [OF True] g(5) show ?thesis by simp
  next
    case False
    from g(16) [OF False] show ?thesis by simp
  qed
  then show ?thesis using g(17) unfolding s m by simp
qed

text \<open>
  A requested size above \<open>2 ^ 63\<close> that is not a power of two: the shift by 64 gives 0 and
  the capacity is 0. The producer then finds the buffer full in every iteration, and a
  consumer of the started engine waits.
\<close>

lemma Len64_overflow: "Len64 (2 ^ 63 + 1) = 64"
proof -
  have u: "unat (2 ^ 63 + 1 :: 64 word) = 2 ^ 63 + 1" by simp
  have "0 < (2 ^ 63 + 1 :: nat)" by simp
  from bit_length_bounds [OF this]
  have b: "(2::nat) ^ (bit_length (2 ^ 63 + 1) - 1) \<le> 2 ^ 63 + 1"
    "(2 ^ 63 + 1 :: nat) < 2 ^ bit_length (2 ^ 63 + 1)" "0 < bit_length (2 ^ 63 + 1)"
    by blast+
  have "(2::nat) ^ 63 < 2 ^ bit_length (2 ^ 63 + 1)" using b(2) by linarith
  then have lo: "63 < bit_length (2 ^ 63 + 1)"
    by (simp only: power_strict_increasing_iff rel_simps)
  have "(2::nat) ^ (bit_length (2 ^ 63 + 1) - 1) < 2 ^ 64" using b(1) by simp
  then have "bit_length (2 ^ 63 + 1) - 1 < 64"
    by (simp only: power_strict_increasing_iff rel_simps)
  with lo have "bit_length (2 ^ 63 + 1) = 64" by linarith
  then show ?thesis unfolding Len64_def u .
qed

lemma roundToNearestPowerOfTwo_overflow: "roundToNearestPowerOfTwo (2 ^ 63 + 1) = 0"
  unfolding roundToNearestPowerOfTwo_def Len64_overflow by simp

lemma zero_capacity_stalls:
  assumes "bufSize pg = 0" "running pg"
  shows "runGenerator_iter pg = Ret GenSleep pg"
    and "bufR pg = bufW pg \<Longrightarrow> Next pg = Ret NextWait pg"
  using assms by (simp_all add: runGenerator_iter_def Next_def)

end
